theory Spec2Isabelle
  imports Complex_Main "HOL-Library.Word"
begin

section \<open>Zotero duplicate detection: the detection engine of duplicate\_enhanced.js\<close>

text \<open>
  The development embeds the duplicate-detection core of
  \<^verbatim>\<open>zotero-duplicate-enhanced/src/duplicate_enhanced.js\<close>: field normalization, the
  string-similarity functions, the weighted pairwise score and the pairwise comparison with
  its ranking.

  Conventions of the embedding.
  \<^item> A JavaScript string is the list of its UTF-16 code units (\<open>16 word\<close>), so that
    \<open>length\<close> is \<^verbatim>\<open>.length\<close> and \<open>!\<close> is indexing.
  \<^item> A JavaScript number is a \<open>real\<close> and arithmetic is exact, except in the weight
    normalization, where the rounding of the doubles is written out because the statement
    depends on it. Counters and lengths, which only ever hold small non-negative integers,
    are \<open>nat\<close>. Infinities and NaN are outside the model.
  \<^item> A thrown exception is the \<open>Inl\<close> branch of a sum type.
  \<^item> The case mappings of the runtime (\<^verbatim>\<open>toLowerCase\<close>, \<^verbatim>\<open>toUpperCase\<close>), which depend
    on the Unicode tables, are parameters of the model (record \<open>js_runtime\<close>).
  \<^item> Console output (progress lines) is not part of the model: it does not influence
    any computed value.
\<close>

subsection \<open>Strings\<close>

type_synonym jschar = "16 word"
type_synonym jsstring = "jschar list"

definition js :: "string \<Rightarrow> jsstring" where
  "js s = map of_char s"

text \<open>The characters matched by \<^verbatim>\<open>\s\<close> in a regular expression, which are also the ones
  removed by \<^verbatim>\<open>trim()\<close>: white space and line terminators.\<close>

definition isSpace :: "jschar \<Rightarrow> bool" where
  "isSpace c = (c \<in> set [9, 10, 11, 12, 13, 32, 160, 5760, 8232, 8233, 8239, 8287, 12288, 65279]
                \<or> (8192 \<le> c \<and> c \<le> 8202))"

text \<open>\<^verbatim>\<open>\d\<close>: the ASCII digits.\<close>

definition isDigit :: "jschar \<Rightarrow> bool" where
  "isDigit c = (48 \<le> c \<and> c \<le> 57)"

text \<open>\<^verbatim>\<open>\w\<close>: ASCII letters, digits and the underscore.\<close>

definition isWordChar :: "jschar \<Rightarrow> bool" where
  "isWordChar c = ((65 \<le> c \<and> c \<le> 90) \<or> (97 \<le> c \<and> c \<le> 122) \<or> isDigit c \<or> c = 95)"

definition trim :: "jsstring \<Rightarrow> jsstring" where
  "trim s = rev (dropWhile isSpace (rev (dropWhile isSpace s)))"

text \<open>\<^verbatim>\<open>str.split(/\s+/)\<close>: the pieces between maximal runs of white space. A string that
  starts (ends) with white space yields an empty first (last) piece.\<close>

function split_ws :: "jsstring \<Rightarrow> jsstring list" where
  "split_ws s =
     (let tok = takeWhile (\<lambda>c. \<not> isSpace c) s;
          rest = dropWhile (\<lambda>c. \<not> isSpace c) s
      in if rest = [] then [tok] else tok # split_ws (dropWhile isSpace rest))"
  by pat_completeness auto
termination
proof (relation "measure length")
  show "wf (measure length)" by simp
next
  fix s tok rest :: jsstring
  assume r: "rest = dropWhile (\<lambda>c. \<not> isSpace c) s" and ne: "rest \<noteq> []"
  have "isSpace (hd rest)" using r ne hd_dropWhile[of "\<lambda>c. \<not> isSpace c" s] by auto
  then have "length (dropWhile isSpace rest) < length rest"
    using ne by (cases rest) (auto intro: le_imp_less_Suc length_dropWhile_le)
  moreover have "length rest \<le> length s" using r by (simp add: length_dropWhile_le)
  ultimately show "(dropWhile isSpace rest, s) \<in> measure length" by simp
qed

declare split_ws.simps [simp del]

text \<open>\<^verbatim>\<open>str.replace(/\s+/g, ' ')\<close>: every maximal run of white space becomes one space.\<close>

function collapse_ws :: "jsstring \<Rightarrow> jsstring" where
  "collapse_ws [] = []"
| "collapse_ws (c # cs) =
     (if isSpace c then 32 # collapse_ws (dropWhile isSpace cs) else c # collapse_ws cs)"
  by pat_completeness auto
termination
  by (relation "measure length") (auto intro: le_imp_less_Suc length_dropWhile_le)

text \<open>\<^verbatim>\<open>Array.prototype.join(' ')\<close> on an array of strings.\<close>

fun join_space :: "jsstring list \<Rightarrow> jsstring" where
  "join_space [] = []"
| "join_space [s] = s"
| "join_space (s # t # ts) = s @ 32 # join_space (t # ts)"

text \<open>\<^verbatim>\<open>Array.prototype.sort(cmp)\<close>. ECMAScript fixes the result for a consistent
  comparator: the elements in ascending order of \<open>cmp\<close>, elements that compare equal in
  their original order (the sort is stable). The model is the insertion sort that produces
  this result: an element goes in front of the first later element that it does not
  exceed.\<close>

fun insertBy :: "('a \<Rightarrow> 'a \<Rightarrow> real) \<Rightarrow> 'a \<Rightarrow> 'a list \<Rightarrow> 'a list" where
  "insertBy cmp x [] = [x]"
| "insertBy cmp x (y # ys) = (if cmp x y \<le> 0 then x # y # ys else y # insertBy cmp x ys)"

fun sortBy :: "('a \<Rightarrow> 'a \<Rightarrow> real) \<Rightarrow> 'a list \<Rightarrow> 'a list" where
  "sortBy cmp [] = []"
| "sortBy cmp (x # xs) = insertBy cmp x (sortBy cmp xs)"

text \<open>The default comparator of \<^verbatim>\<open>sort()\<close> on strings: code units, lexicographically.\<close>

fun stringLess :: "jsstring \<Rightarrow> jsstring \<Rightarrow> bool" where
  "stringLess [] [] = False"
| "stringLess [] (y # ys) = True"
| "stringLess (x # xs) [] = False"
| "stringLess (x # xs) (y # ys) = (x < y \<or> (x = y \<and> stringLess xs ys))"

definition defaultCompare :: "jsstring \<Rightarrow> jsstring \<Rightarrow> real" where
  "defaultCompare s t = (if stringLess s t then -1 else if stringLess t s then 1 else 0)"

text \<open>The decimal digits of a natural number, and \<^verbatim>\<open>x.toFixed(1)\<close>: the integer \<open>n\<close>
  nearest to \<open>10 * x\<close> (the larger one on a tie), printed with one digit after the point
  (for magnitudes below \<open>10^21\<close>; the detector prints percentages).\<close>

function natDigits :: "nat \<Rightarrow> jsstring" where
  "natDigits n = (if n < 10 then [48 + of_nat n] else natDigits (n div 10) @ [48 + of_nat (n mod 10)])"
  by pat_completeness auto
termination
  by (relation "measure id") auto

declare natDigits.simps [simp del]

definition toFixed1 :: "real \<Rightarrow> jsstring" where
  "toFixed1 x =
     (let a = \<bar>x\<bar>;
          n = nat \<lfloor>a * 10 + 1 / 2\<rfloor>;
          digits = natDigits (n div 10) @ js ''.'' @ natDigits (n mod 10)
      in if x < 0 then js ''-'' @ digits else digits)"

subsection \<open>Exceptions\<close>

datatype js_error = Thrown jsstring

definition bindE :: "js_error + 'a \<Rightarrow> ('a \<Rightarrow> js_error + 'b) \<Rightarrow> js_error + 'b" where
  "bindE r f = (case r of Inl e \<Rightarrow> Inl e | Inr v \<Rightarrow> f v)"

subsection \<open>Records of the data model\<close>

text \<open>The case mappings of the runtime.\<close>

record js_runtime =
  toLowerCase :: "jsstring \<Rightarrow> jsstring"
  toUpperCase :: "jsstring \<Rightarrow> jsstring"

text \<open>A creator as the host returns it; an absent property is \<open>None\<close>.\<close>

record creator =
  firstName :: "jsstring option"
  lastName :: "jsstring option"
  name :: "jsstring option"

text \<open>The raw record is a host object. The detector reads its \<^verbatim>\<open>id\<close> and
  \<^verbatim>\<open>itemType\<close> properties and calls \<^verbatim>\<open>getField(name)\<close> and \<^verbatim>\<open>getCreators()\<close>, which
  may throw.\<close>

record raw_item =
  raw_id :: int
  raw_itemType :: "jsstring option"
  getField :: "string \<Rightarrow> js_error + jsstring"
  getCreators :: "js_error + creator list"

record normalized_item =
  item_id :: int
  originalItem :: raw_item
  title :: jsstring
  shortTitle :: jsstring
  date :: jsstring
  publisher :: jsstring
  place :: jsstring
  journal :: jsstring
  DOI :: jsstring
  ISBN :: jsstring
  URL :: jsstring
  itemType :: jsstring
  creators :: jsstring
  year :: jsstring

record candidate =
  item1 :: normalized_item
  item2 :: normalized_item
  similarity :: real
  reason :: jsstring

text \<open>The weight vector is an object with one numeric property per field name: an
  association list in property order.\<close>

type_synonym weights = "(string \<times> real) list"

subsection \<open>Utility functions\<close>

text \<open>\<^verbatim>\<open>normalizeWeights\<close> updates the object in place; the model returns the updated
  object.\<close>

definition normalizeWeights :: "weights \<Rightarrow> weights" where
  "normalizeWeights ws =
     (let totalWeight = foldl (+) 0 (map snd ws)
      in if totalWeight = 0 then ws
         else map (\<lambda>(key, v). (key, v / totalWeight)) ws)"

subsection \<open>Doubles\<close>

text \<open>Where the rounding of floating-point arithmetic changes a statement, it is written
  out: a double is the real number it denotes, and an operation returns the double nearest
  to its exact result, ties going to the even significand (IEEE 754 binary64,
  round-to-nearest-even). The exponent range is not modelled, so the operations are those of
  the runtime as long as no result overflows or underflows.\<close>

text \<open>The binade of a positive number \<open>x\<close> is the exponent \<open>e\<close> with
  \<open>2^e \<le> x < 2^(e+1)\<close>; it is found by halving or doubling.\<close>

function halvings :: "real \<Rightarrow> nat" where
  "halvings x = (if x < 2 then 0 else Suc (halvings (x / 2)))"
  by pat_completeness auto
termination
proof (relation "measure (\<lambda>x. nat \<lfloor>x\<rfloor>)")
  show "wf (measure (\<lambda>x. nat \<lfloor>x\<rfloor>))" by simp
next
  fix x :: real
  assume "\<not> x < 2"
  then have "\<lfloor>x / 2\<rfloor> < \<lfloor>x\<rfloor>" by linarith
  moreover have "0 < \<lfloor>x\<rfloor>" using \<open>\<not> x < 2\<close> by linarith
  ultimately show "(x / 2, x) \<in> measure (\<lambda>x. nat \<lfloor>x\<rfloor>)" by simp
qed

function doublings :: "real \<Rightarrow> nat" where
  "doublings x = (if x \<le> 0 \<or> 1 \<le> x then 0 else Suc (doublings (2 * x)))"
  by pat_completeness auto
termination
proof (relation "measure (\<lambda>x. nat \<lceil>1 / x\<rceil>)")
  show "wf (measure (\<lambda>x. nat \<lceil>1 / x\<rceil>))" by simp
next
  fix x :: real
  assume a: "\<not> (x \<le> 0 \<or> 1 \<le> x)"
  then have x: "0 < x" "x < 1" by simp_all
  then have y: "1 < 1 / x" by simp
  have e: "1 / (2 * x) = (1 / x) / 2" by simp
  have c: "\<lceil>z / 2\<rceil> < \<lceil>z\<rceil> \<and> 0 < \<lceil>z\<rceil>" if "1 < z" for z :: real
  proof -
    have a: "z \<le> of_int \<lceil>z\<rceil>" by (rule le_of_int_ceiling)
    have "1 < \<lceil>z\<rceil>" using that by (simp add: less_ceiling_iff)
    then have b: "(2::real) \<le> of_int \<lceil>z\<rceil>" by linarith
    have "z / 2 \<le> of_int \<lceil>z\<rceil> - 1" using a b by linarith
    then have "z / 2 \<le> of_int (\<lceil>z\<rceil> - 1)" by simp
    then have "\<lceil>z / 2\<rceil> \<le> \<lceil>z\<rceil> - 1" by (rule ceiling_le)
    then show ?thesis using \<open>1 < \<lceil>z\<rceil>\<close> by simp
  qed
  have "\<lceil>1 / (2 * x)\<rceil> < \<lceil>1 / x\<rceil> \<and> 0 < \<lceil>1 / x\<rceil>" using c[OF y] unfolding e .
  then have "nat \<lceil>1 / (2 * x)\<rceil> < nat \<lceil>1 / x\<rceil>" by (simp only: zless_nat_conj)
  then show "(2 * x, x) \<in> measure (\<lambda>x. nat \<lceil>1 / x\<rceil>)" by (simp only: in_measure)
qed

declare halvings.simps [simp del] doublings.simps [simp del]

definition binade :: "real \<Rightarrow> int" where
  "binade x = (if 1 \<le> x then int (halvings x) else - int (doublings x))"

text \<open>Rounding to the nearest integer, a tie going to the even one.\<close>

definition roundEven :: "real \<Rightarrow> int" where
  "roundEven y =
     (let f = \<lfloor>y\<rfloor>; d = y - of_int f
      in if d < 1 / 2 then f else if 1 / 2 < d then f + 1 else if even f then f else f + 1)"

text \<open>The double nearest to a real number: the significand has 53 bits, so the spacing
  of the doubles in the binade \<open>e\<close> is \<open>2^(e-52)\<close>.\<close>

definition roundDouble :: "real \<Rightarrow> real" where
  "roundDouble x =
     (if x = 0 then 0
      else let ulp = 2 powi (binade \<bar>x\<bar> - 52)
           in sgn x * (of_int (roundEven (\<bar>x\<bar> / ulp)) * ulp))"

definition addDouble :: "real \<Rightarrow> real \<Rightarrow> real" where
  "addDouble x y = roundDouble (x + y)"

definition divDouble :: "real \<Rightarrow> real \<Rightarrow> real" where
  "divDouble x y = roundDouble (x / y)"

text \<open>\<^verbatim>\<open>normalizeWeights\<close> with the arithmetic of the runtime: the additions of
  \<^verbatim>\<open>reduce\<close> and the divisions round their results.\<close>

definition normalizeWeightsDouble :: "weights \<Rightarrow> weights" where
  "normalizeWeightsDouble ws =
     (let totalWeight = foldl addDouble 0 (map snd ws)
      in if totalWeight = 0 then ws
         else map (\<lambda>(key, v). (key, divDouble v totalWeight)) ws)"

text \<open>The weight vector \<^verbatim>\<open>{a: 0.1, b: 0.2, c: 0.3}\<close>: a decimal literal denotes the
  nearest double.\<close>

definition tenths :: weights where
  "tenths = [(''a'', roundDouble (1 / 10)), (''b'', roundDouble (2 / 10)), (''c'', roundDouble (3 / 10))]"

definition unitRoundoff :: real where
  "unitRoundoff = 1 / 2 ^ 53"

subsection \<open>Field normalization\<close>

text \<open>The punctuation class of \<^verbatim>\<open>normalizeField\<close>:
  \<^verbatim>\<open>. , / # ! $ % ^ & * ; : { } = - _ ` ~ ( ) [ ] " '\<close>.\<close>

definition isPunctuation :: "jschar \<Rightarrow> bool" where
  "isPunctuation c =
     (c \<in> set [46, 44, 47, 35, 33, 36, 37, 94, 38, 42, 59, 58, 123, 125, 61, 45, 95, 96,
                126, 40, 41, 91, 93, 34, 39])"

definition normalizeField :: "js_runtime \<Rightarrow> jsstring \<Rightarrow> jsstring" where
  "normalizeField rt field =
     (if field = [] then []
      else trim (toLowerCase rt (collapse_ws (map (\<lambda>c. if isPunctuation c then 32 else c) field))))"

text \<open>The pattern \<^verbatim>\<open>/10\.\d{4,}\/[^\s]+/i\<close> tried at the start of a string: \<^verbatim>\<open>10.\<close>, the
  whole run of digits (at least four), a slash, and the whole run of non-space characters
  (at least one).\<close>

definition doiMatchAt :: "jsstring \<Rightarrow> jsstring option" where
  "doiMatchAt s =
     (if take 3 s = js ''10.'' then
        let digits = takeWhile isDigit (drop 3 s);
            after = dropWhile isDigit (drop 3 s)
        in if 4 \<le> length digits \<and> after \<noteq> [] \<and> hd after = 47 then
             let body = takeWhile (\<lambda>c. \<not> isSpace c) (tl after)
             in if body \<noteq> [] then Some (js ''10.'' @ digits @ 47 # body) else None
           else None
      else None)"

fun firstDoiMatch :: "jsstring \<Rightarrow> jsstring option" where
  "firstDoiMatch [] = None"
| "firstDoiMatch (c # cs) =
     (case doiMatchAt (c # cs) of Some m \<Rightarrow> Some m | None \<Rightarrow> firstDoiMatch cs)"

definition normalizeDOI :: "js_runtime \<Rightarrow> jsstring \<Rightarrow> jsstring" where
  "normalizeDOI rt doi =
     (if doi = [] then []
      else case firstDoiMatch doi of Some m \<Rightarrow> toLowerCase rt m | None \<Rightarrow> [])"

definition normalizeISBN :: "js_runtime \<Rightarrow> jsstring \<Rightarrow> jsstring" where
  "normalizeISBN rt isbn =
     (if isbn = [] then []
      else toUpperCase rt (filter (\<lambda>c. isDigit c \<or> c = 88 \<or> c = 120) isbn))"

definition stripProtocol :: "jsstring \<Rightarrow> jsstring" where
  "stripProtocol s =
     (if take 7 s = js ''http://'' then drop 7 s
      else if take 8 s = js ''https://'' then drop 8 s
      else s)"

definition stripTrailingSlashes :: "jsstring \<Rightarrow> jsstring" where
  "stripTrailingSlashes s = rev (dropWhile (\<lambda>c. c = 47) (rev s))"

definition normalizeURL :: "js_runtime \<Rightarrow> jsstring \<Rightarrow> jsstring" where
  "normalizeURL rt url =
     (if url = [] then []
      else toLowerCase rt (stripTrailingSlashes (stripProtocol url)))"

definition orEmpty :: "jsstring option \<Rightarrow> jsstring" where
  "orEmpty v = (case v of None \<Rightarrow> [] | Some s \<Rightarrow> s)"

definition creatorName :: "js_runtime \<Rightarrow> creator \<Rightarrow> jsstring" where
  "creatorName rt c =
     (let lastOrName = (if orEmpty (lastName c) \<noteq> [] then orEmpty (lastName c) else orEmpty (name c))
      in trim (toLowerCase rt (orEmpty (firstName c) @ 32 # lastOrName)))"

definition normalizeCreators :: "js_runtime \<Rightarrow> creator list \<Rightarrow> jsstring" where
  "normalizeCreators rt cs =
     (if cs = [] then []
      else join_space (sortBy defaultCompare
             (filter (\<lambda>n. 0 < length n) (map (creatorName rt) cs))))"

text \<open>The pattern \<^verbatim>\<open>/\b(19|20)\d{2}\b/\<close>: the flag says whether the character before the
  current position is a word character.\<close>

definition yearAt :: "bool \<Rightarrow> jsstring \<Rightarrow> bool" where
  "yearAt afterWord s =
     (\<not> afterWord \<and> 4 \<le> length s \<and> (take 2 s = js ''19'' \<or> take 2 s = js ''20'')
      \<and> isDigit (s ! 2) \<and> isDigit (s ! 3) \<and> (length s = 4 \<or> \<not> isWordChar (s ! 4)))"

fun firstYear :: "bool \<Rightarrow> jsstring \<Rightarrow> jsstring" where
  "firstYear afterWord [] = []"
| "firstYear afterWord (c # cs) =
     (if yearAt afterWord (c # cs) then take 4 (c # cs) else firstYear (isWordChar c) cs)"

definition extractYear :: "jsstring \<Rightarrow> jsstring" where
  "extractYear dateStr = (if dateStr = [] then [] else firstYear False dateStr)"

text \<open>\<^verbatim>\<open>normalizeItemFields\<close> evaluates the properties of the object literal in order; the
  first accessor that throws ends the evaluation with its exception. The second journal
  field is read only when the first one is empty.\<close>

definition normalizeItemFields :: "js_runtime \<Rightarrow> raw_item \<Rightarrow> js_error + normalized_item" where
  "normalizeItemFields rt item =
     bindE (getField item ''title'') (\<lambda>fTitle.
     bindE (getField item ''shortTitle'') (\<lambda>fShortTitle.
     bindE (getField item ''date'') (\<lambda>fDate.
     bindE (getField item ''publisher'') (\<lambda>fPublisher.
     bindE (getField item ''place'') (\<lambda>fPlace.
     bindE (getField item ''publicationTitle'') (\<lambda>fPublication.
     bindE (if fPublication \<noteq> [] then Inr fPublication
            else getField item ''journalAbbreviation'') (\<lambda>fJournal.
     bindE (getField item ''DOI'') (\<lambda>fDOI.
     bindE (getField item ''ISBN'') (\<lambda>fISBN.
     bindE (getField item ''url'') (\<lambda>fUrl.
     bindE (getCreators item) (\<lambda>fCreators.
     bindE (getField item ''date'') (\<lambda>fDate2.
       Inr \<lparr> item_id = raw_id item,
             originalItem = item,
             title = normalizeField rt fTitle,
             shortTitle = normalizeField rt fShortTitle,
             date = normalizeField rt fDate,
             publisher = normalizeField rt fPublisher,
             place = normalizeField rt fPlace,
             journal = normalizeField rt fJournal,
             DOI = normalizeDOI rt fDOI,
             ISBN = normalizeISBN rt fISBN,
             URL = normalizeURL rt fUrl,
             itemType = trim (toLowerCase rt (orEmpty (raw_itemType item))),
             creators = normalizeCreators rt fCreators,
             year = extractYear fDate2 \<rparr>))))))))))))"

subsection \<open>Similarity algorithms\<close>

definition tokenSet :: "jsstring \<Rightarrow> jsstring set" where
  "tokenSet s = set (filter (\<lambda>t. 0 < length t) (split_ws s))"

definition jaccardSimilarity :: "jsstring \<Rightarrow> jsstring \<Rightarrow> real" where
  "jaccardSimilarity str1 str2 =
     (if str1 = [] \<and> str2 = [] then 1
      else if str1 = [] \<or> str2 = [] then 0
      else
        let set1 = tokenSet str1;
            set2 = tokenSet str2
        in if card set1 = 0 \<and> card set2 = 0 then 1
           else if card set1 = 0 \<or> card set2 = 0 then 0
           else
             let intersection = Set.filter (\<lambda>x. x \<in> set2) set1;
                 union = set1 \<union> set2
             in real (card intersection) / real (card union))"

text \<open>The two rows of the dynamic programme are arrays of length \<open>n + 1\<close>; every index the
  loops use is in range. The inner loop fills \<open>currRow[j]\<close> for \<open>j = 1, \<dots>, n\<close>; the outer
  loop sets \<open>currRow[0]\<close>, runs the inner loop and swaps the two rows.\<close>

function inner_loop :: "'a \<Rightarrow> 'a list \<Rightarrow> nat list \<Rightarrow> nat list \<Rightarrow> nat \<Rightarrow> nat \<Rightarrow> nat list" where
  "inner_loop c str2 prevRow currRow j n =
     (if j \<le> n then
        let cost = (if c = str2 ! (j - 1) then 0 else 1);
            currRow' = currRow[j := min (min (prevRow ! j + 1) (currRow ! (j - 1) + 1))
                                       (prevRow ! (j - 1) + cost)]
        in inner_loop c str2 prevRow currRow' (j + 1) n
      else currRow)"
  by pat_completeness auto
termination
  by (relation "measure (\<lambda>(c, str2, prevRow, currRow, j, n). Suc n - j)") auto

function outer_loop ::
  "'a list \<Rightarrow> 'a list \<Rightarrow> nat list \<Rightarrow> nat list \<Rightarrow> nat \<Rightarrow> nat \<Rightarrow> nat \<Rightarrow> nat list \<times> nat list" where
  "outer_loop str1 str2 prevRow currRow i m n =
     (if i \<le> m then
        let start = currRow[0 := i];
            currRow' = inner_loop (str1 ! (i - 1)) str2 prevRow start 1 n
        in outer_loop str1 str2 currRow' prevRow (i + 1) m n
      else (prevRow, currRow))"
  by pat_completeness auto
termination
  by (relation "measure (\<lambda>(str1, str2, prevRow, currRow, i, m, n). Suc m - i)") auto

declare inner_loop.simps [simp del] outer_loop.simps [simp del]

definition levenshteinDistance :: "'a list \<Rightarrow> 'a list \<Rightarrow> nat" where
  "levenshteinDistance str1 str2 =
     (if str1 = [] then (if str2 \<noteq> [] then length str2 else 0)
      else if str2 = [] then length str1
      else
        let m = length str1;
            n = length str2;
            prevRow = [0..<Suc n];
            currRow = replicate (Suc n) 0
        in fst (outer_loop str1 str2 prevRow currRow 1 m n) ! n)"

definition levenshteinSimilarity :: "jsstring \<Rightarrow> jsstring \<Rightarrow> real" where
  "levenshteinSimilarity str1 str2 =
     (if str1 = [] \<and> str2 = [] then 1
      else if str1 = [] \<or> str2 = [] then 0
      else
        let maxLen = max (length str1) (length str2)
        in if maxLen = 0 then 1
           else 1 - real (levenshteinDistance str1 str2) / real maxLen)"

definition combinedTitleSimilarity :: "jsstring \<Rightarrow> jsstring \<Rightarrow> bool \<Rightarrow> real" where
  "combinedTitleSimilarity title1 title2 useFuzzy =
     (let jaccard = jaccardSimilarity title1 title2
      in if \<not> useFuzzy then jaccard
         else
           let levenshtein = levenshteinSimilarity title1 title2;
               avgLen = (real (length title1) + real (length title2)) / 2;
               levenshteinWeight = max 0 (1 - avgLen / 100)
           in jaccard * (1 - levenshteinWeight) + levenshtein * levenshteinWeight)"

subsection \<open>Duplicate detection\<close>

text \<open>A test \<^verbatim>\<open>weights.k > 0\<close> is false when the property is absent.\<close>

definition weightPositive :: "weights \<Rightarrow> string \<Rightarrow> bool" where
  "weightPositive ws k = (case map_of ws k of Some v \<Rightarrow> 0 < v | None \<Rightarrow> False)"

definition weightValue :: "weights \<Rightarrow> string \<Rightarrow> real" where
  "weightValue ws k = (case map_of ws k of Some v \<Rightarrow> v | None \<Rightarrow> 0)"

text \<open>The two running sums of \<^verbatim>\<open>calculateSimilarity\<close>, \<open>(combinedSimilarity, totalWeight)\<close>,
  and the update that every scored field makes when its weight is positive.\<close>

type_synonym accumulator = "real \<times> real"

definition accumulate :: "weights \<Rightarrow> string \<Rightarrow> real \<Rightarrow> accumulator \<Rightarrow> accumulator" where
  "accumulate ws k sim acc =
     (if weightPositive ws k
      then (fst acc + sim * weightValue ws k, snd acc + weightValue ws k)
      else acc)"

text \<open>The dynamic property read \<^verbatim>\<open>item[field]\<close> of the loop over the low-priority
  fields.\<close>

definition fieldOf :: "normalized_item \<Rightarrow> string \<Rightarrow> jsstring" where
  "fieldOf item field =
     (if field = ''shortTitle'' then shortTitle item
      else if field = ''place'' then place item
      else if field = ''ISBN'' then ISBN item
      else [])"

definition lowPriorityFields :: "string list" where
  "lowPriorityFields = [''shortTitle'', ''place'', ''ISBN'']"

definition calculateSimilarity ::
  "normalized_item \<Rightarrow> normalized_item \<Rightarrow> weights \<Rightarrow> bool \<Rightarrow> bool \<Rightarrow> real" where
  "calculateSimilarity i1 i2 ws useFuzzyTitle requireSameType =
     (if requireSameType \<and> itemType i1 \<noteq> itemType i2 then 0
      else
        let urlSim = (if URL i1 \<noteq> [] \<and> URL i2 \<noteq> [] \<and> URL i1 = URL i2 then 1
                      else jaccardSimilarity (URL i1) (URL i2));
            acc1 = accumulate ws ''URL'' urlSim (0, 0);
            doiSim = (if DOI i1 \<noteq> [] \<and> DOI i2 \<noteq> [] \<and> DOI i1 = DOI i2 then 1 else 0);
            acc2 = accumulate ws ''DOI'' doiSim acc1;
            titleSim = combinedTitleSimilarity (title i1) (title i2) useFuzzyTitle;
            acc3 = accumulate ws ''title'' titleSim acc2;
            creatorSim = jaccardSimilarity (creators i1) (creators i2);
            acc4 = accumulate ws ''creators'' creatorSim acc3;
            dateSim = (if year i1 \<noteq> [] \<and> year i2 \<noteq> [] \<and> year i1 = year i2 then 1
                       else jaccardSimilarity (date i1) (date i2));
            acc5 = accumulate ws ''date'' dateSim acc4;
            pubSim = jaccardSimilarity (publisher i1) (publisher i2);
            acc6 = accumulate ws ''publisher'' pubSim acc5;
            journalSim = jaccardSimilarity (journal i1) (journal i2);
            acc7 = accumulate ws ''journal'' journalSim acc6;
            acc8 = fold (\<lambda>field. accumulate ws field
                           (jaccardSimilarity (fieldOf i1 field) (fieldOf i2 field)))
                        lowPriorityFields acc7;
            acc9 = (if weightPositive ws ''itemType'' \<and> requireSameType
                    then accumulate ws ''itemType'' 1 acc8 else acc8)
        in if 0 < snd acc9 then fst acc9 / snd acc9 else 0)"

text \<open>\<^verbatim>\<open>checkExactIdentifierMatch\<close> returns \<^verbatim>\<open>{match: true, type, value}\<close> or
  \<^verbatim>\<open>{match: false}\<close>: an optional pair of identifier kind and value.\<close>

definition checkExactIdentifierMatch ::
  "normalized_item \<Rightarrow> normalized_item \<Rightarrow> (string \<times> jsstring) option" where
  "checkExactIdentifierMatch i1 i2 =
     (if URL i1 \<noteq> [] \<and> URL i2 \<noteq> [] \<and> URL i1 = URL i2 then Some (''URL'', URL i1)
      else if DOI i1 \<noteq> [] \<and> DOI i2 \<noteq> [] \<and> DOI i1 = DOI i2 then Some (''DOI'', DOI i1)
      else None)"

definition typesNote :: "normalized_item \<Rightarrow> normalized_item \<Rightarrow> jsstring" where
  "typesNote i1 i2 =
     (if itemType i1 \<noteq> itemType i2
      then js '' (types differ: '' @ itemType i1 @ js '' vs '' @ itemType i2 @ js '')''
      else [])"

text \<open>The body of the inner comparison loop for one pair: the candidate that is pushed,
  if any.\<close>

definition comparePair ::
  "normalized_item \<Rightarrow> normalized_item \<Rightarrow> real \<Rightarrow> weights \<Rightarrow> bool \<Rightarrow> bool \<Rightarrow> bool \<Rightarrow> candidate option" where
  "comparePair i1 i2 threshold ws useExactMatch useFuzzyTitle requireSameType =
     (case (if useExactMatch then checkExactIdentifierMatch i1 i2 else None) of
        Some (kind, v) \<Rightarrow>
          Some \<lparr> item1 = i1, item2 = i2, similarity = 1,
                 reason = js ''Exact '' @ js kind @ js '' match: '' @ v @ typesNote i1 i2 \<rparr>
      | None \<Rightarrow>
          let sim = calculateSimilarity i1 i2 ws useFuzzyTitle requireSameType
          in if threshold \<le> sim
             then Some \<lparr> item1 = i1, item2 = i2, similarity = sim,
                         reason = js ''Similarity: '' @ toFixed1 (sim * 100) @ js ''%''
                                  @ typesNote i1 i2 \<rparr>
             else None)"

text \<open>The inner loop \<open>j = i + 1, \<dots>\<close> for a fixed first item, and the outer loop over the
  first items: candidates are pushed in the order of the pairs \<open>(i, j)\<close>.\<close>

fun compareWith ::
  "normalized_item \<Rightarrow> normalized_item list \<Rightarrow> real \<Rightarrow> weights \<Rightarrow> bool \<Rightarrow> bool \<Rightarrow> bool \<Rightarrow> candidate list" where
  "compareWith i1 [] threshold ws ex fz st = []"
| "compareWith i1 (i2 # rest) threshold ws ex fz st =
     (case comparePair i1 i2 threshold ws ex fz st of
        Some c \<Rightarrow> c # compareWith i1 rest threshold ws ex fz st
      | None \<Rightarrow> compareWith i1 rest threshold ws ex fz st)"

fun comparePairs ::
  "normalized_item list \<Rightarrow> real \<Rightarrow> weights \<Rightarrow> bool \<Rightarrow> bool \<Rightarrow> bool \<Rightarrow> candidate list" where
  "comparePairs [] threshold ws ex fz st = []"
| "comparePairs (i1 # rest) threshold ws ex fz st =
     compareWith i1 rest threshold ws ex fz st @ comparePairs rest threshold ws ex fz st"

text \<open>The normalization loop: items are normalized in input order and pushed; an exception
  leaves the loop and the function.\<close>

fun normalizeAll :: "js_runtime \<Rightarrow> raw_item list \<Rightarrow> js_error + normalized_item list" where
  "normalizeAll rt [] = Inr []"
| "normalizeAll rt (item # items) =
     bindE (normalizeItemFields rt item) (\<lambda>n.
     bindE (normalizeAll rt items) (\<lambda>ns. Inr (n # ns)))"

definition bySimilarityDesc :: "candidate \<Rightarrow> candidate \<Rightarrow> real" where
  "bySimilarityDesc a b = similarity b - similarity a"

text \<open>\<^verbatim>\<open>detectDuplicates\<close> is an async function without an await: it either returns the
  sorted candidates (\<open>Inr\<close>) or rejects with the exception that was thrown (\<open>Inl\<close>).\<close>

definition detectDuplicates ::
  "js_runtime \<Rightarrow> raw_item list \<Rightarrow> real \<Rightarrow> weights \<Rightarrow> bool \<Rightarrow> bool \<Rightarrow> bool \<Rightarrow> js_error + candidate list" where
  "detectDuplicates rt items threshold ws useExactMatch useFuzzyTitle requireSameType =
     bindE (normalizeAll rt items) (\<lambda>normalizedItems.
       Inr (sortBy bySimilarityDesc
              (comparePairs normalizedItems threshold ws useExactMatch useFuzzyTitle requireSameType)))"

subsection \<open>Reference notions used by the statements\<close>

text \<open>One edit operation applied anywhere in a string: the insertion of a character, the
  deletion of a character, or the substitution of a character by another.\<close>

inductive one_edit :: "'a list \<Rightarrow> 'a list \<Rightarrow> bool" where
  insert_at: "one_edit (pre @ post) (pre @ y # post)"
| delete_at: "one_edit (pre @ x # post) (pre @ post)"
| substitute_at: "one_edit (pre @ x # post) (pre @ y # post)"

text \<open>\<open>edit_steps n a b\<close>: \<open>b\<close> is reached from \<open>a\<close> by \<open>n\<close> edit operations, each of
  cost one.\<close>

inductive edit_steps :: "nat \<Rightarrow> 'a list \<Rightarrow> 'a list \<Rightarrow> bool" where
  no_step: "edit_steps 0 xs xs"
| one_more: "edit_steps n xs ys \<Longrightarrow> one_edit ys zs \<Longrightarrow> edit_steps (Suc n) xs zs"

text \<open>Two auxiliary views of the edit distance, used in the proofs only: the cost of a
  left-to-right alignment, and the textbook recursion.\<close>

inductive edit_cost :: "'a list \<Rightarrow> 'a list \<Rightarrow> nat \<Rightarrow> bool" where
  finished: "edit_cost [] [] 0"
| keep: "edit_cost xs ys n \<Longrightarrow> edit_cost (x # xs) (x # ys) n"
| substitution: "edit_cost xs ys n \<Longrightarrow> edit_cost (x # xs) (y # ys) (Suc n)"
| insertion: "edit_cost xs ys n \<Longrightarrow> edit_cost xs (y # ys) (Suc n)"
| deletion: "edit_cost xs ys n \<Longrightarrow> edit_cost (x # xs) ys (Suc n)"

fun med :: "'a list \<Rightarrow> 'a list \<Rightarrow> nat" where
  "med [] ys = length ys"
| "med (x # xs) [] = Suc (length xs)"
| "med (x # xs) (y # ys) =
     min (min (med xs (y # ys) + 1) (med (x # xs) ys + 1)) (med xs ys + (if x = y then 0 else 1))"

text \<open>The entry \<open>(i, j)\<close> of the dynamic-programming table: the distance between the
  prefixes of lengths \<open>i\<close> and \<open>j\<close>.\<close>

definition prefixDistance :: "'a list \<Rightarrow> 'a list \<Rightarrow> nat \<Rightarrow> nat \<Rightarrow> nat" where
  "prefixDistance a b i j = med (rev (take i a)) (rev (take j b))"

text \<open>A token of a string, in the words of the specification: a non-empty piece without
  white space that is delimited by white space or the ends of the string.\<close>

definition isToken :: "jsstring \<Rightarrow> jsstring \<Rightarrow> bool" where
  "isToken s t =
     (t \<noteq> [] \<and> (\<forall>c \<in> set t. \<not> isSpace c) \<and>
      (\<exists>pre post. s = pre @ t @ post \<and> (pre = [] \<or> isSpace (last pre))
                                    \<and> (post = [] \<or> isSpace (hd post))))"

text \<open>The per-field similarities of the specification's scoring table, in its order; the
  item type takes part only when the same type is required.\<close>

definition fieldSimilarities ::
  "normalized_item \<Rightarrow> normalized_item \<Rightarrow> bool \<Rightarrow> bool \<Rightarrow> (string \<times> real) list" where
  "fieldSimilarities r1 r2 useFuzzyTitle requireSameType =
     [(''URL'', if URL r1 \<noteq> [] \<and> URL r1 = URL r2 then 1 else jaccardSimilarity (URL r1) (URL r2)),
      (''DOI'', if DOI r1 \<noteq> [] \<and> DOI r1 = DOI r2 then 1 else 0),
      (''title'', combinedTitleSimilarity (title r1) (title r2) useFuzzyTitle),
      (''creators'', jaccardSimilarity (creators r1) (creators r2)),
      (''date'', if year r1 \<noteq> [] \<and> year r1 = year r2 then 1 else jaccardSimilarity (date r1) (date r2)),
      (''publisher'', jaccardSimilarity (publisher r1) (publisher r2)),
      (''journal'', jaccardSimilarity (journal r1) (journal r2)),
      (''shortTitle'', jaccardSimilarity (shortTitle r1) (shortTitle r2)),
      (''place'', jaccardSimilarity (place r1) (place r2)),
      (''ISBN'', jaccardSimilarity (ISBN r1) (ISBN r2))]
     @ (if requireSameType then [(''itemType'', 1)] else [])"

text \<open>The sums over the fields with positive weight.\<close>

definition accumulatedSimilarity :: "weights \<Rightarrow> (string \<times> real) list \<Rightarrow> real" where
  "accumulatedSimilarity ws sims =
     (\<Sum>(k, sim) \<leftarrow> filter (\<lambda>(k, sim). weightPositive ws k) sims. sim * weightValue ws k)"

definition accumulatedWeight :: "weights \<Rightarrow> (string \<times> real) list \<Rightarrow> real" where
  "accumulatedWeight ws sims =
     (\<Sum>(k, sim) \<leftarrow> filter (\<lambda>(k, sim). weightPositive ws k) sims. weightValue ws k)"

text \<open>The weight a field contributes to the running sums: its weight when positive,
  nothing otherwise.\<close>

definition countedWeight :: "weights \<Rightarrow> string \<Rightarrow> real" where
  "countedWeight ws k = (if weightPositive ws k then weightValue ws k else 0)"

text \<open>The pairs \<open>(i, j)\<close> with \<open>i < j < n\<close> in the order in which the two nested loops of
  \<^verbatim>\<open>detectDuplicates\<close> visit them.\<close>

definition pairOrder :: "nat \<Rightarrow> (nat \<times> nat) list" where
  "pairOrder n = concat (map (\<lambda>i. map (\<lambda>j. (i, j)) [Suc i..<n]) [0..<n])"

text \<open>Lowercasing of the ASCII letters, an instance of the runtime parameter for the
  concrete evaluations below (it agrees with \<^verbatim>\<open>toLowerCase\<close> on ASCII strings).\<close>

definition asciiLower :: "jsstring \<Rightarrow> jsstring" where
  "asciiLower s = map (\<lambda>c. if 65 \<le> c \<and> c \<le> 90 then c + 32 else c) s"

definition asciiUpper :: "jsstring \<Rightarrow> jsstring" where
  "asciiUpper s = map (\<lambda>c. if 97 \<le> c \<and> c \<le> 122 then c - 32 else c) s"

definition asciiRuntime :: js_runtime where
  "asciiRuntime = \<lparr> toLowerCase = asciiLower, toUpperCase = asciiUpper \<rparr>"

text \<open>The weights that the script starts from, in its property order.\<close>

definition defaultWeights :: weights where
  "defaultWeights =
     [(''URL'', 25 / 100), (''DOI'', 22 / 100), (''title'', 20 / 100), (''creators'', 15 / 100),
      (''date'', 10 / 100), (''publisher'', 4 / 100), (''journal'', 4 / 100),
      (''shortTitle'', 0), (''place'', 0), (''ISBN'', 0), (''itemType'', 0)]"

text \<open>Host records for the concrete evaluations: a well-behaved record that answers every
  field name (the empty string for a field it does not have) and has no creators, and a
  malformed record whose field accessor throws.\<close>

definition hostItem :: "int \<Rightarrow> string \<Rightarrow> (string \<times> string) list \<Rightarrow> raw_item" where
  "hostItem i ty fieldValues =
     \<lparr> raw_id = i,
       raw_itemType = Some (js ty),
       getField = (\<lambda>f. case map_of fieldValues f of Some v \<Rightarrow> Inr (js v) | None \<Rightarrow> Inr []),
       getCreators = Inr [] \<rparr>"

definition malformedItem :: "int \<Rightarrow> raw_item" where
  "malformedItem i =
     \<lparr> raw_id = i,
       raw_itemType = Some (js ''book''),
       getField = (\<lambda>f. Inl (Thrown (js ''invalid field''))),
       getCreators = Inr [] \<rparr>"

definition bookA :: raw_item where
  "bookA = hostItem 1 ''book''
     [(''title'', ''Deep Learning.''), (''url'', ''http://x.org/a/''), (''date'', ''May 2016'')]"

definition pageB :: raw_item where
  "pageB = hostItem 2 ''webpage''
     [(''title'', ''Deep learning''), (''url'', ''https://X.org/a''), (''DOI'', ''doi:10.1000/XYZ'')]"

definition bookC :: raw_item where
  "bookC = hostItem 3 ''book''
     [(''title'', ''Deep Learning''), (''url'', ''http://x.org/a''), (''date'', ''2016-05-01'')]"

definition titled :: "int \<Rightarrow> string \<Rightarrow> raw_item" where
  "titled i t = hostItem i ''book'' [(''title'', t)]"

text \<open>A normalized record with every field empty, as a base for concrete records.\<close>

definition emptyItem :: normalized_item where
  "emptyItem =
     \<lparr> item_id = 0, originalItem = hostItem 0 [] [],
       title = [], shortTitle = [], date = [], publisher = [], place = [], journal = [],
       DOI = [], ISBN = [], URL = [], itemType = [], creators = [], year = [] \<rparr>"

section \<open>Edit distance\<close>

subsection \<open>The recursion and the alignments\<close>

lemma med_Nil2 [simp]: "med xs [] = length xs"
  by (cases xs) simp_all

lemma edit_cost_med: "edit_cost xs ys (med xs ys)"
proof (induction xs ys rule: med.induct)
  case (1 ys)
  show ?case by (induction ys) (auto intro: edit_cost.intros)
next
  case (2 x xs)
  have "edit_cost zs [] (length zs)" for zs :: "'a list"
    by (induction zs) (auto intro: edit_cost.intros)
  from this[of "x # xs"] show ?case by simp
next
  case (3 x xs y ys)
  let ?d = "med xs (y # ys) + 1" and ?i = "med (x # xs) ys + 1"
  let ?s = "med xs ys + (if x = y then 0 else 1)"
  have d: "edit_cost (x # xs) (y # ys) ?d" using 3(1) by (auto intro: edit_cost.deletion)
  have i: "edit_cost (x # xs) (y # ys) ?i" using 3(2) by (auto intro: edit_cost.insertion)
  have s: "edit_cost (x # xs) (y # ys) ?s" using 3(3)
    by (auto intro: edit_cost.keep edit_cost.substitution)
  have "med (x # xs) (y # ys) = ?d \<or> med (x # xs) (y # ys) = ?i \<or> med (x # xs) (y # ys) = ?s"
    unfolding med.simps min_def by presburger
  then show ?case using d i s by metis
qed

lemma med_insert_le: "med xs (y # ys) \<le> Suc (med xs ys)"
  by (cases xs) simp_all

lemma med_delete_le: "med (x # xs) ys \<le> Suc (med xs ys)"
  by (cases ys) simp_all

lemma med_le_edit_cost: "edit_cost xs ys n \<Longrightarrow> med xs ys \<le> n"
proof (induction rule: edit_cost.induct)
  case finished
  show ?case by simp
next
  case (keep xs ys n x)
  then show ?case by (simp add: min_le_iff_disj)
next
  case (substitution xs ys n x y)
  then show ?case by (simp add: min_le_iff_disj)
next
  case (insertion xs ys n y)
  then show ?case using med_insert_le[of xs y ys] by simp
next
  case (deletion xs ys n x)
  then show ?case using med_delete_le[of x xs ys] by simp
qed

lemma edit_cost_snoc_keep: "edit_cost xs ys n \<Longrightarrow> edit_cost (xs @ [x]) (ys @ [x]) n"
  by (induction rule: edit_cost.induct) (auto intro: edit_cost.intros)

lemma edit_cost_snoc_subst: "edit_cost xs ys n \<Longrightarrow> edit_cost (xs @ [x]) (ys @ [y]) (Suc n)"
  by (induction rule: edit_cost.induct) (auto intro: edit_cost.intros)

lemma edit_cost_snoc_ins: "edit_cost xs ys n \<Longrightarrow> edit_cost xs (ys @ [y]) (Suc n)"
  by (induction rule: edit_cost.induct) (auto intro: edit_cost.intros)

lemma edit_cost_snoc_del: "edit_cost xs ys n \<Longrightarrow> edit_cost (xs @ [x]) ys (Suc n)"
  by (induction rule: edit_cost.induct) (auto intro: edit_cost.intros)

lemma edit_cost_rev: "edit_cost xs ys n \<Longrightarrow> edit_cost (rev xs) (rev ys) n"
  by (induction rule: edit_cost.induct)
     (auto intro: edit_cost.finished edit_cost_snoc_keep edit_cost_snoc_subst
                  edit_cost_snoc_ins edit_cost_snoc_del)

lemma med_rev: "med (rev xs) (rev ys) = med xs ys"
proof (rule antisym)
  show "med (rev xs) (rev ys) \<le> med xs ys"
    using med_le_edit_cost[OF edit_cost_rev[OF edit_cost_med[of xs ys]]] .
  show "med xs ys \<le> med (rev xs) (rev ys)"
    using med_le_edit_cost[OF edit_cost_rev[OF edit_cost_med[of "rev xs" "rev ys"]]] by simp
qed


lemma prefixDistance_0_left: "j \<le> length b \<Longrightarrow> prefixDistance a b 0 j = j"
  by (simp add: prefixDistance_def)

lemma prefixDistance_0_right: "i \<le> length a \<Longrightarrow> prefixDistance a b i 0 = i"
  by (simp add: prefixDistance_def)

lemma prefixDistance_Suc_Suc:
  assumes "i < length a" "j < length b"
  shows "prefixDistance a b (Suc i) (Suc j) =
           min (min (prefixDistance a b i (Suc j) + 1) (prefixDistance a b (Suc i) j + 1))
               (prefixDistance a b i j + (if a ! i = b ! j then 0 else 1))"
  using assms by (simp add: prefixDistance_def take_Suc_conv_app_nth)

lemma inner_loop_row:
  assumes "c = a ! i" "i < length a" "n = length b"
    and "length prevRow = Suc n" "length currRow = Suc n"
    and "\<forall>k\<le>n. prevRow ! k = prefixDistance a b i k"
    and "1 \<le> j" "j \<le> Suc n"
    and "\<forall>k<j. currRow ! k = prefixDistance a b (Suc i) k"
  shows "length (inner_loop c b prevRow currRow j n) = Suc n \<and>
         (\<forall>k\<le>n. inner_loop c b prevRow currRow j n ! k = prefixDistance a b (Suc i) k)"
  using assms
proof (induction c b prevRow currRow j n rule: inner_loop.induct)
  case (1 c str2 prevRow currRow j n)
  show ?case
  proof (cases "j \<le> n")
    case False
    then have "j = Suc n" using "1.prems" by simp
    then show ?thesis using "1.prems" False by (simp add: inner_loop.simps[of _ _ _ _ j] less_Suc_eq_le)
  next
    case True
    let ?cost = "if c = str2 ! (j - 1) then 0 else 1 :: nat"
    let ?v = "min (min (prevRow ! j + 1) (currRow ! (j - 1) + 1)) (prevRow ! (j - 1) + ?cost)"
    let ?row = "currRow[j := ?v]"
    obtain j' where j': "j = Suc j'" using "1.prems"(7) by (cases j) auto
    have j'n: "j' < length str2" using True j' "1.prems"(3) by simp
    have v: "?v = prefixDistance a str2 (Suc i) j"
      using "1.prems" True j' j'n by (simp add: prefixDistance_Suc_Suc)
    have jlen: "j < length currRow" using "1.prems" True by simp
    have inv: "\<forall>k<j + 1. ?row ! k = prefixDistance a str2 (Suc i) k"
    proof (intro allI impI)
      fix k assume "k < j + 1"
      then consider "k < j" | "k = j" by linarith
      then show "?row ! k = prefixDistance a str2 (Suc i) k"
      proof cases
        case 1
        then show ?thesis using "1.prems"(9) by simp
      next
        case 2
        then show ?thesis using v jlen by simp
      qed
    qed
    have len: "length ?row = Suc n" using "1.prems" by simp
    have step: "inner_loop c str2 prevRow currRow j n = inner_loop c str2 prevRow ?row (j + 1) n"
      using True by (subst inner_loop.simps) (simp add: Let_def)
    have "length (inner_loop c str2 prevRow ?row (j + 1) n) = Suc n \<and>
          (\<forall>k\<le>n. inner_loop c str2 prevRow ?row (j + 1) n ! k = prefixDistance a str2 (Suc i) k)"
      using True "1.prems" len inv
      by (intro "1.IH"[OF True refl refl]) simp_all
    then show ?thesis using step by simp
  qed
qed

lemma outer_loop_rows:
  assumes "m = length a" "n = length b"
    and "length prevRow = Suc n" "length currRow = Suc n"
    and "1 \<le> i" "i \<le> Suc m"
    and "\<forall>k\<le>n. prevRow ! k = prefixDistance a b (i - 1) k"
  shows "\<forall>k\<le>n. fst (outer_loop a b prevRow currRow i m n) ! k = prefixDistance a b m k"
  using assms
proof (induction a b prevRow currRow i m n rule: outer_loop.induct)
  case (1 str1 str2 prevRow currRow i m n)
  show ?case
  proof (cases "i \<le> m")
    case False
    then have "i - 1 = m" using "1.prems" by simp
    then show ?thesis using "1.prems"(7) False by (simp add: outer_loop.simps[of _ _ _ _ i])
  next
    case True
    obtain i' where i': "i = Suc i'" using "1.prems"(5) by (cases i) auto
    let ?start = "currRow[0 := i]"
    let ?row = "inner_loop (str1 ! (i - 1)) str2 prevRow ?start 1 n"
    have row: "length ?row = Suc n \<and> (\<forall>k\<le>n. ?row ! k = prefixDistance str1 str2 (Suc i') k)"
      using inner_loop_row[of "str1 ! (i - 1)" str1 i' n str2 prevRow ?start 1] "1.prems" True i'
      by (simp add: prefixDistance_0_right)
    have step: "outer_loop str1 str2 prevRow currRow i m n = outer_loop str1 str2 ?row prevRow (i + 1) m n"
      using True by (subst outer_loop.simps) (simp add: Let_def)
    have "\<forall>k\<le>n. fst (outer_loop str1 str2 ?row prevRow (i + 1) m n) ! k = prefixDistance str1 str2 m k"
      using True "1.prems" row i'
      by (intro "1.IH"[OF True refl refl]) simp_all
    then show ?thesis using step by simp
  qed
qed

lemma levenshteinDistance_med: "levenshteinDistance a b = med a b"
proof (cases "a = [] \<or> b = []")
  case True
  then show ?thesis by (auto simp: levenshteinDistance_def)
next
  case False
  let ?n = "length b" and ?m = "length a"
  have "\<forall>k\<le>?n. fst (outer_loop a b [0..<Suc ?n] (replicate (Suc ?n) 0) 1 ?m ?n) ! k = prefixDistance a b ?m k"
  proof (rule outer_loop_rows)
    show "\<forall>k\<le>?n. [0..<Suc ?n] ! k = prefixDistance a b (1 - 1) k"
      by (auto simp: prefixDistance_0_left nth_upt simp del: upt_Suc)
  qed simp_all
  then have "fst (outer_loop a b [0..<Suc ?n] (replicate (Suc ?n) 0) 1 ?m ?n) ! ?n = prefixDistance a b ?m ?n"
    by simp
  also have "\<dots> = med a b" by (simp add: prefixDistance_def med_rev)
  finally show ?thesis using False by (simp add: levenshteinDistance_def Let_def del: upt_Suc)
qed


subsection \<open>Edit operations applied anywhere\<close>

lemma one_edit_Cons: "one_edit xs ys \<Longrightarrow> one_edit (z # xs) (z # ys)"
proof (induction rule: one_edit.induct)
  case (insert_at pre post y)
  show ?case using one_edit.insert_at[of "z # pre" post y] by simp
next
  case (delete_at pre x post)
  show ?case using one_edit.delete_at[of "z # pre" x post] by simp
next
  case (substitute_at pre x post y)
  show ?case using one_edit.substitute_at[of "z # pre" x post y] by simp
qed

lemma edit_steps_Cons: "edit_steps n xs ys \<Longrightarrow> edit_steps n (z # xs) (z # ys)"
  by (induction rule: edit_steps.induct) (auto intro: edit_steps.intros one_edit_Cons)

lemma edit_cost_edit_steps: "edit_cost xs ys n \<Longrightarrow> edit_steps n xs ys"
proof (induction rule: edit_cost.induct)
  case finished
  show ?case by (rule edit_steps.no_step)
next
  case (keep xs ys n x)
  then show ?case by (simp add: edit_steps_Cons)
next
  case (substitution xs ys n x y)
  have "edit_steps n (x # xs) (x # ys)" using substitution.IH by (rule edit_steps_Cons)
  moreover have "one_edit (x # ys) (y # ys)" using one_edit.substitute_at[of "[]" x ys y] by simp
  ultimately show ?case by (rule edit_steps.one_more)
next
  case (insertion xs ys n y)
  have "one_edit ys (y # ys)" using one_edit.insert_at[of "[]" ys y] by simp
  with insertion.IH show ?case by (rule edit_steps.one_more)
next
  case (deletion xs ys n x)
  have "edit_steps n (x # xs) (x # ys)" using deletion.IH by (rule edit_steps_Cons)
  moreover have "one_edit (x # ys) ys" using one_edit.delete_at[of "[]" x ys] by simp
  ultimately show ?case by (rule edit_steps.one_more)
qed

lemma med_Cons_le: "med (x # xs) (y # ys) \<le> Suc (med xs ys)"
  by (simp add: min_le_iff_disj)

lemma med_drop_target: "med xs ys \<le> Suc (med xs (y # ys))"
proof (induction xs)
  case Nil
  show ?case by simp
next
  case (Cons x xs)
  have a: "med (x # xs) ys \<le> Suc (med xs ys)" by (rule med_delete_le)
  show ?case using Cons.IH a by (auto simp: min_def)
qed

lemma med_replace_target: "med xs (y # ys) \<le> Suc (med xs (z # ys))"
proof (induction xs)
  case Nil
  show ?case by simp
next
  case (Cons x xs)
  have a: "med (x # xs) (y # ys) \<le> Suc (med xs (y # ys))" by (rule med_delete_le)
  have b: "med (x # xs) (y # ys) \<le> Suc (med (x # xs) ys)" by (rule med_insert_le)
  have c: "med (x # xs) (y # ys) \<le> Suc (med xs ys)" by (rule med_Cons_le)
  show ?case using Cons.IH a b c by (auto simp: min_def)
qed

lemma med_same_head:
  assumes "\<And>xs. med xs ys \<le> Suc (med xs zs)"
  shows "med xs (p # ys) \<le> Suc (med xs (p # zs))"
proof (induction xs)
  case Nil
  show ?case using assms[of "[]"] by simp
next
  case (Cons x xs)
  have a: "med (x # xs) (p # ys) \<le> Suc (med xs (p # ys))" by (rule med_delete_le)
  have b: "med (x # xs) (p # ys) \<le> Suc (med (x # xs) ys)" by (rule med_insert_le)
  have c: "med (x # xs) (p # ys) \<le> med xs ys + (if x = p then 0 else 1)"
    by (simp add: min_le_iff_disj)
  show ?case using Cons.IH a b c assms[of xs] assms[of "x # xs"]
    by (auto simp: min_def split: if_splits)
qed

lemma med_one_edit: "one_edit ys zs \<Longrightarrow> med xs zs \<le> Suc (med xs ys)"
proof (induction arbitrary: xs rule: one_edit.induct)
  case (insert_at pre post y)
  show ?case
  proof (induction pre arbitrary: xs)
    case Nil
    show ?case by (simp add: med_insert_le)
  next
    case (Cons p pre)
    show ?case using med_same_head[of "pre @ y # post" "pre @ post" xs p] Cons.IH by simp
  qed
next
  case (delete_at pre x post)
  show ?case
  proof (induction pre arbitrary: xs)
    case Nil
    show ?case by (simp add: med_drop_target)
  next
    case (Cons p pre)
    show ?case using med_same_head[of "pre @ post" "pre @ x # post" xs p] Cons.IH by simp
  qed
next
  case (substitute_at pre x post y)
  show ?case
  proof (induction pre arbitrary: xs)
    case Nil
    show ?case by (simp add: med_replace_target)
  next
    case (Cons p pre)
    show ?case using med_same_head[of "pre @ y # post" "pre @ x # post" xs p] Cons.IH by simp
  qed
qed

lemma med_same: "med zs zs = 0"
  by (induction zs) simp_all

lemma med_le_edit_steps: "edit_steps n xs ys \<Longrightarrow> med xs ys \<le> n"
proof (induction rule: edit_steps.induct)
  case (no_step xs)
  show ?case by (simp add: med_same)
next
  case (one_more n xs ys zs)
  then show ?case using med_one_edit[of ys zs xs] by simp
qed


lemma levenshteinDistance_reached: "edit_steps (levenshteinDistance a b) a b"
  using edit_cost_edit_steps[OF edit_cost_med[of a b]] by (simp add: levenshteinDistance_med)

lemma levenshteinDistance_least: "edit_steps n a b \<Longrightarrow> levenshteinDistance a b \<le> n"
  by (simp add: levenshteinDistance_med med_le_edit_steps)

text \<open>
  \<^bold>\<open>Claim C7.\<close> For all strings \<open>a\<close> and \<open>b\<close>, \<^verbatim>\<open>levenshteinDistance(a, b)\<close> is the
  minimum edit distance under insertions, deletions and substitutions of unit cost: \<open>b\<close> is
  reached from \<open>a\<close> by that many edit operations, and by no fewer. When one string is empty
  the distance is the length of the other one, and the distance between \<^verbatim>\<open>kitten\<close> and
  \<^verbatim>\<open>sitting\<close> is 3.
\<close>

theorem levenshteinDistance_minimum_edit_distance:
  "edit_steps (levenshteinDistance a b) a b
   \<and> (\<forall>n. edit_steps n a b \<longrightarrow> levenshteinDistance a b \<le> n)
   \<and> levenshteinDistance [] b = length b
   \<and> levenshteinDistance a [] = length a
   \<and> levenshteinDistance (js ''kitten'') (js ''sitting'') = 3"
proof (intro conjI allI impI)
  show "edit_steps (levenshteinDistance a b) a b" by (rule levenshteinDistance_reached)
  show "levenshteinDistance a b \<le> n" if "edit_steps n a b" for n
    using that by (rule levenshteinDistance_least)
  show "levenshteinDistance [] b = length b" by (simp add: levenshteinDistance_def)
  show "levenshteinDistance a [] = length a" by (simp add: levenshteinDistance_def)
  show "levenshteinDistance (js ''kitten'') (js ''sitting'') = 3" by code_simp
qed

theorem levenshteinDistance_minimum_edit_distance_witness:
  "edit_steps 1 (js ''cat'') (js ''cut'') \<and> levenshteinDistance (js ''cat'') (js ''cut'') \<le> 1"
proof -
  have "one_edit (js ''c'' @ 97 # js ''t'') (js ''c'' @ 117 # js ''t'')"
    by (rule one_edit.substitute_at)
  then have e: "one_edit (js ''cat'') (js ''cut'')" by (simp add: js_def)
  have s: "edit_steps 1 (js ''cat'') (js ''cut'')"
    using edit_steps.one_more[OF edit_steps.no_step e] by simp
  show ?thesis
    using s levenshteinDistance_minimum_edit_distance[of "js ''cat''" "js ''cut''"] by blast
qed

section \<open>Token-set similarity\<close>

lemma finite_tokenSet [simp]: "finite (tokenSet s)"
  by (simp add: tokenSet_def)

lemma jaccardSimilarity_cases:
  "jaccardSimilarity a b =
     (if a = [] \<and> b = [] then 1
      else if a = [] \<or> b = [] then 0
      else if tokenSet a = {} \<and> tokenSet b = {} then 1
      else if tokenSet a = {} \<or> tokenSet b = {} then 0
      else real (card (tokenSet a \<inter> tokenSet b)) / real (card (tokenSet a \<union> tokenSet b)))"
proof -
  have "Set.filter (\<lambda>x. x \<in> tokenSet b) (tokenSet a) = tokenSet a \<inter> tokenSet b" by auto
  then show ?thesis unfolding jaccardSimilarity_def Let_def by simp
qed

lemma jaccardSimilarity_bounds: "0 \<le> jaccardSimilarity a b \<and> jaccardSimilarity a b \<le> 1"
proof -
  have "card (tokenSet a \<inter> tokenSet b) \<le> card (tokenSet a \<union> tokenSet b)"
    by (rule card_mono) auto
  then have "real (card (tokenSet a \<inter> tokenSet b)) / real (card (tokenSet a \<union> tokenSet b)) \<le> 1"
    by (simp add: divide_le_eq_1 card_gt_0_iff)
  then show ?thesis by (simp add: jaccardSimilarity_cases)
qed

lemma jaccardSimilarity_commute: "jaccardSimilarity a b = jaccardSimilarity b a"
  by (simp add: jaccardSimilarity_cases Int_commute Un_commute)

lemma jaccardSimilarity_same: "jaccardSimilarity a a = 1"
  by (simp add: jaccardSimilarity_cases)

lemma takeWhile_token:
  assumes "\<forall>c \<in> set t. P c" "post = [] \<or> \<not> P (hd post)"
  shows "takeWhile P (t @ post) = t"
  using assms by (cases post) (auto simp: takeWhile_append)

lemma last_dropWhile_eq: "dropWhile P xs \<noteq> [] \<Longrightarrow> last (dropWhile P xs) = last xs"
proof -
  assume a: "dropWhile P xs \<noteq> []"
  have "last (takeWhile P xs @ dropWhile P xs) = last (dropWhile P xs)"
    using a by (simp only: last_append if_False)
  then show ?thesis by simp
qed

lemma split_ws_no_space:
  assumes "dropWhile (\<lambda>c. \<not> isSpace c) s = []"
  shows "split_ws s = [s]"
proof -
  have "takeWhile (\<lambda>c. \<not> isSpace c) s = s"
    using assms takeWhile_dropWhile_id[of "\<lambda>c. \<not> isSpace c" s] by (simp only: append_Nil2)
  then show ?thesis
    using assms split_ws.simps[of s] by (simp only: Let_def simp_thms if_True)
qed

lemma split_ws_space:
  assumes "dropWhile (\<lambda>c. \<not> isSpace c) s \<noteq> []"
  shows "split_ws s = takeWhile (\<lambda>c. \<not> isSpace c) s
                  # split_ws (dropWhile isSpace (dropWhile (\<lambda>c. \<not> isSpace c) s))"
  using assms split_ws.simps[of s] by (simp only: Let_def if_False)

lemma isTokenI:
  assumes "t \<noteq> []" "\<forall>c \<in> set t. \<not> isSpace c" "s = pre @ t @ post"
    and "pre = [] \<or> isSpace (last pre)" "post = [] \<or> isSpace (hd post)"
  shows "isToken s t"
  unfolding isToken_def using assms by (intro conjI exI[of _ pre] exI[of _ post]) simp_all

lemma isTokenE:
  assumes "isToken s t"
  obtains pre post where "t \<noteq> []" "\<forall>c \<in> set t. \<not> isSpace c" "s = pre @ t @ post"
    "pre = [] \<or> isSpace (last pre)" "post = [] \<or> isSpace (hd post)"
  using assms unfolding isToken_def by (elim conjE exE) simp

lemma tokenSet_isToken: "t \<in> tokenSet s \<longleftrightarrow> isToken s t"
proof (induction s rule: split_ws.induct)
  case (1 s)
  let ?P = "\<lambda>c. \<not> isSpace c"
  define tok where "tok = takeWhile ?P s"
  define rest where "rest = dropWhile ?P s"
  have s: "s = tok @ rest" by (simp add: tok_def rest_def)
  have tok: "\<forall>c \<in> set tok. \<not> isSpace c" unfolding tok_def by (auto dest: set_takeWhileD)
  show ?case
  proof (cases "rest = []")
    case True
    then have nosp: "\<forall>c \<in> set s. \<not> isSpace c" using s tok by simp
    have ts: "tokenSet s = (if s = [] then {} else {s})"
      using True split_ws_no_space[of s] by (simp add: tokenSet_def rest_def)
    have "isToken s t \<longleftrightarrow> t = s \<and> s \<noteq> []"
    proof
      assume "isToken s t"
      then obtain pre post where t: "t \<noteq> []" and tns: "\<forall>c \<in> set t. \<not> isSpace c"
        and st: "s = pre @ t @ post"
        and pre: "pre = [] \<or> isSpace (last pre)" and post: "post = [] \<or> isSpace (hd post)"
        by (rule isTokenE)
      have "pre = []" using pre nosp st by (cases "pre = []") auto
      moreover have "post = []" using post nosp st by (cases post) auto
      ultimately show "t = s \<and> s \<noteq> []" using st t by simp
    next
      assume a: "t = s \<and> s \<noteq> []"
      then show "isToken s t" using nosp by (intro isTokenI[of t s "[]" "[]"]) simp_all
    qed
    then show ?thesis using ts by auto
  next
    case False
    define s' where "s' = dropWhile isSpace rest"
    have hd_rest: "isSpace (hd rest)"
      using False hd_dropWhile[of ?P s] by (auto simp: rest_def)
    have ts: "tokenSet s = (if tok = [] then {} else {tok}) \<union> tokenSet s'"
      using False split_ws_space[of s]
      by (auto simp: tok_def rest_def s'_def tokenSet_def)
    have IH: "t \<in> tokenSet s' \<longleftrightarrow> isToken s' t"
      using "1.IH"[OF refl refl] False by (simp add: s'_def rest_def)
    define sp where "sp = takeWhile isSpace rest"
    have rest: "rest = sp @ s'" by (simp add: sp_def s'_def)
    have sp: "\<forall>c \<in> set sp. isSpace c" unfolding sp_def by (auto dest: set_takeWhileD)
    have sp_ne: "sp \<noteq> []" using False hd_rest by (cases rest) (auto simp: sp_def)
    have "isToken s t \<longleftrightarrow> (t = tok \<and> tok \<noteq> []) \<or> isToken s' t"
    proof
      assume "isToken s t"
      then obtain pre post where t: "t \<noteq> []" and tns: "\<forall>c \<in> set t. \<not> isSpace c"
        and st: "s = pre @ t @ post"
        and pre: "pre = [] \<or> isSpace (last pre)" and post: "post = [] \<or> isSpace (hd post)"
        by (rule isTokenE)
      show "(t = tok \<and> tok \<noteq> []) \<or> isToken s' t"
      proof (cases "pre = []")
        case True
        then have "tok = t" using st tns post takeWhile_token[of t ?P post] by (simp add: tok_def)
        then show ?thesis using t by simp
      next
        case pne: False
        then have lp: "isSpace (last pre)" using pre by simp
        then have ex: "\<not> (\<forall>c \<in> set pre. \<not> isSpace c)" using pne last_in_set by blast
        define q where "q = dropWhile ?P pre"
        obtain c where c: "c \<in> set pre" "isSpace c" using ex by blast
        have r: "rest = q @ t @ post"
          unfolding rest_def q_def st using c by (simp add: dropWhile_append1)
        have qne: "q \<noteq> []" using ex by (auto simp: q_def)
        have lq: "isSpace (last q)" using lp qne last_dropWhile_eq[of ?P pre] by (simp add: q_def)
        define pre' where "pre' = dropWhile isSpace q"
        have dt: "dropWhile isSpace (t @ post) = t @ post"
          using t tns by (cases t) auto
        have s'eq: "s' = pre' @ t @ post"
          unfolding s'_def r pre'_def using dt by (simp add: dropWhile_append)
        have "pre' = [] \<or> isSpace (last pre')"
        proof (cases "pre' = []")
          case False
          then have "last pre' = last q" using last_dropWhile_eq[of isSpace q] by (simp add: pre'_def)
          then show ?thesis using lq by simp
        qed simp
        then have "isToken s' t" using s'eq t tns post by (intro isTokenI[of t s' pre' post])
        then show ?thesis by simp
      qed
    next
      assume "(t = tok \<and> tok \<noteq> []) \<or> isToken s' t"
      then show "isToken s t"
      proof
        assume a: "t = tok \<and> tok \<noteq> []"
        show "isToken s t" using a tok s hd_rest by (intro isTokenI[of t s "[]" rest]) simp_all
      next
        assume "isToken s' t"
        then obtain pre post where t: "t \<noteq> []" and tns: "\<forall>c \<in> set t. \<not> isSpace c"
          and st: "s' = pre @ t @ post"
          and pre: "pre = [] \<or> isSpace (last pre)" and post: "post = [] \<or> isSpace (hd post)"
          by (rule isTokenE)
        have "s = (tok @ sp @ pre) @ t @ post" using s rest st by simp
        moreover have "isSpace (last (tok @ sp @ pre))"
          using pre sp sp_ne by (cases "pre = []") auto
        ultimately show "isToken s t" using t tns post
          by (intro isTokenI[of t s "tok @ sp @ pre" post]) simp_all
      qed
    qed
    then show ?thesis using ts IH by auto
  qed
qed

text \<open>
  \<^bold>\<open>Claim C6.\<close> For all strings \<open>a\<close> and \<open>b\<close>, \<^verbatim>\<open>jaccardSimilarity\<close> returns 1 when both
  are empty and 0 when exactly one is empty; otherwise it is the Jaccard index
  \<open>|A \<inter> B| / |A \<union> B|\<close> of the sets of non-empty white-space-delimited tokens of the two
  strings, where two empty token sets (strings of white space only) count as identical and
  give 1. The token set computed by the code is the set of tokens of the string, and
  \<^verbatim>\<open>jaccardSimilarity(a, a)\<close> is 1 for every string.
\<close>

theorem jaccardSimilarity_token_sets:
  "(str1 = [] \<and> str2 = [] \<longrightarrow> jaccardSimilarity str1 str2 = 1)
   \<and> ((str1 = []) \<noteq> (str2 = []) \<longrightarrow> jaccardSimilarity str1 str2 = 0)
   \<and> (str1 \<noteq> [] \<and> str2 \<noteq> [] \<and> tokenSet str1 \<union> tokenSet str2 \<noteq> {} \<longrightarrow>
        jaccardSimilarity str1 str2 =
          real (card (tokenSet str1 \<inter> tokenSet str2)) / real (card (tokenSet str1 \<union> tokenSet str2)))
   \<and> (str1 \<noteq> [] \<and> str2 \<noteq> [] \<and> tokenSet str1 \<union> tokenSet str2 = {} \<longrightarrow>
        jaccardSimilarity str1 str2 = 1)
   \<and> (\<forall>t. t \<in> tokenSet str1 \<longleftrightarrow> isToken str1 t)
   \<and> jaccardSimilarity str1 str1 = 1"
proof (intro conjI impI allI)
  show "jaccardSimilarity str1 str2 = 1" if "str1 = [] \<and> str2 = []"
    using that by (simp add: jaccardSimilarity_cases)
  show "jaccardSimilarity str1 str2 = 0" if "(str1 = []) \<noteq> (str2 = [])"
    using that by (auto simp: jaccardSimilarity_cases)
  show "jaccardSimilarity str1 str2 =
          real (card (tokenSet str1 \<inter> tokenSet str2)) / real (card (tokenSet str1 \<union> tokenSet str2))"
    if "str1 \<noteq> [] \<and> str2 \<noteq> [] \<and> tokenSet str1 \<union> tokenSet str2 \<noteq> {}"
    using that by (auto simp: jaccardSimilarity_cases)
  show "jaccardSimilarity str1 str2 = 1"
    if "str1 \<noteq> [] \<and> str2 \<noteq> [] \<and> tokenSet str1 \<union> tokenSet str2 = {}"
    using that by (simp add: jaccardSimilarity_cases)
  show "t \<in> tokenSet str1 \<longleftrightarrow> isToken str1 t" for t by (rule tokenSet_isToken)
  show "jaccardSimilarity str1 str1 = 1" by (rule jaccardSimilarity_same)
qed

theorem jaccardSimilarity_token_sets_witness:
  "jaccardSimilarity (js ''a b'') (js ''b c'') = 1 / 3
   \<and> jaccardSimilarity [] [] = 1
   \<and> jaccardSimilarity (js ''x'') [] = 0
   \<and> jaccardSimilarity (js '' '') (js ''  '') = 1
   \<and> isToken (js ''a b'') (js ''b'')"
proof -
  have ne: "js ''a b'' \<noteq> [] \<and> js ''b c'' \<noteq> [] \<and> js ''x'' \<noteq> [] \<and> js '' '' \<noteq> [] \<and> js ''  '' \<noteq> []"
    by (simp add: js_def)
  have u: "tokenSet (js ''a b'') \<union> tokenSet (js ''b c'') \<noteq> {}" by code_simp
  have c1: "card (tokenSet (js ''a b'') \<inter> tokenSet (js ''b c'')) = 1" by code_simp
  have c3: "card (tokenSet (js ''a b'') \<union> tokenSet (js ''b c'')) = 3" by code_simp
  have e: "tokenSet (js '' '') \<union> tokenSet (js ''  '') = {}" by code_simp
  have m: "js ''b'' \<in> tokenSet (js ''a b'')" by code_simp
  have "jaccardSimilarity (js ''a b'') (js ''b c'') = 1 / 3"
    using jaccardSimilarity_token_sets[of "js ''a b''" "js ''b c''"] ne u c1 c3 by simp
  moreover have "jaccardSimilarity [] [] = 1"
    using jaccardSimilarity_token_sets[of "[]" "[]"] by simp
  moreover have "jaccardSimilarity (js ''x'') [] = 0"
    using jaccardSimilarity_token_sets[of "js ''x''" "[]"] ne by simp
  moreover have "jaccardSimilarity (js '' '') (js ''  '') = 1"
    using jaccardSimilarity_token_sets[of "js '' ''" "js ''  ''"] ne e by simp
  moreover have "isToken (js ''a b'') (js ''b'')"
    using jaccardSimilarity_token_sets[of "js ''a b''" "[]"] m by blast
  ultimately show ?thesis by simp
qed

section \<open>Edit similarity and the title blend\<close>

lemma med_commute: "med xs ys = med ys xs"
  by (induction xs ys rule: med.induct) (simp_all add: min.commute min.left_commute eq_commute)

lemma med_le_max: "med xs ys \<le> max (length xs) (length ys)"
proof (induction xs ys rule: med.induct)
  case (3 x xs y ys)
  have "med (x # xs) (y # ys) \<le> Suc (med xs ys)" by (rule med_Cons_le)
  then show ?case using 3(3) by simp
qed simp_all

lemma levenshteinDistance_commute: "levenshteinDistance a b = levenshteinDistance b a"
  by (simp add: levenshteinDistance_med med_commute)

lemma levenshteinSimilarity_commute: "levenshteinSimilarity a b = levenshteinSimilarity b a"
  by (simp add: levenshteinSimilarity_def levenshteinDistance_commute[of a b] max.commute Let_def disj_commute conj_commute)

lemma ratio_le_one:
  fixes x y :: real
  assumes "0 \<le> x" "x \<le> y"
  shows "x / y \<le> 1"
proof (cases "y = 0")
  case True
  then show ?thesis by simp
next
  case False
  then have "0 < y" using assms by simp
  then show ?thesis using assms by (simp add: divide_le_eq_1_pos)
qed

lemma levenshteinSimilarity_bounds:
  "0 \<le> levenshteinSimilarity a b \<and> levenshteinSimilarity a b \<le> 1"
proof -
  have "real (levenshteinDistance a b) \<le> real (max (length a) (length b))"
    using med_le_max[of a b] by (simp add: levenshteinDistance_med)
  then have "real (levenshteinDistance a b) / real (max (length a) (length b)) \<le> 1"
    by (intro ratio_le_one) simp_all
  moreover have "0 \<le> real (levenshteinDistance a b) / real (max (length a) (length b))" by simp
  ultimately show ?thesis by (auto simp: levenshteinSimilarity_def Let_def)
qed

lemma blend_bounds:
  fixes j l w :: real
  assumes "0 \<le> j" "j \<le> 1" "0 \<le> l" "l \<le> 1" "0 \<le> w" "w \<le> 1"
  shows "0 \<le> j * (1 - w) + l * w \<and> j * (1 - w) + l * w \<le> 1"
proof
  show "0 \<le> j * (1 - w) + l * w" using assms by simp
  have "j * (1 - w) \<le> 1 * (1 - w)" using assms by (intro mult_right_mono) simp_all
  moreover have "l * w \<le> 1 * w" using assms by (intro mult_right_mono) simp_all
  ultimately show "j * (1 - w) + l * w \<le> 1" by simp
qed

lemma combinedTitleSimilarity_bounds:
  "0 \<le> combinedTitleSimilarity a b fz \<and> combinedTitleSimilarity a b fz \<le> 1"
proof (cases fz)
  case False
  then show ?thesis using jaccardSimilarity_bounds[of a b] by (simp add: combinedTitleSimilarity_def)
next
  case True
  let ?w = "max 0 (1 - (real (length a) + real (length b)) / 2 / 100)"
  have w: "0 \<le> ?w" "?w \<le> 1" by simp_all
  show ?thesis
    using True blend_bounds[OF _ _ _ _ w, of "jaccardSimilarity a b" "levenshteinSimilarity a b"]
      jaccardSimilarity_bounds[of a b] levenshteinSimilarity_bounds[of a b]
    by (simp add: combinedTitleSimilarity_def Let_def)
qed

lemma combinedTitleSimilarity_commute:
  "combinedTitleSimilarity a b fz = combinedTitleSimilarity b a fz"
  by (simp add: combinedTitleSimilarity_def Let_def jaccardSimilarity_commute[of a b]
        levenshteinSimilarity_commute[of a b] add.commute)

text \<open>
  \<^bold>\<open>Claim C5.\<close> For all titles \<open>t1\<close> and \<open>t2\<close>: with fuzzy matching disabled,
  \<^verbatim>\<open>combinedTitleSimilarity\<close> is the token-set similarity of the two titles; with fuzzy
  matching enabled it is \<open>tokenSetSimilarity * (1 - editWeight) + editSimilarity * editWeight\<close>
  with \<open>editWeight = max(0, 1 - avgLength / 100)\<close>, where \<open>avgLength\<close> is the mean length
  of the two titles.
\<close>

theorem combinedTitleSimilarity_blend:
  "combinedTitleSimilarity t1 t2 False = jaccardSimilarity t1 t2
   \<and> combinedTitleSimilarity t1 t2 True =
       jaccardSimilarity t1 t2 * (1 - max 0 (1 - ((real (length t1) + real (length t2)) / 2) / 100))
       + levenshteinSimilarity t1 t2 * max 0 (1 - ((real (length t1) + real (length t2)) / 2) / 100)"
  by (simp add: combinedTitleSimilarity_def Let_def)

theorem combinedTitleSimilarity_blend_witness:
  "combinedTitleSimilarity (js ''cat'') (js ''cut'') False = 0
   \<and> combinedTitleSimilarity (js ''cat'') (js ''cut'') True = 97 / 150"
proof -
  have j: "jaccardSimilarity (js ''cat'') (js ''cut'') = 0" by code_simp
  have l: "levenshteinSimilarity (js ''cat'') (js ''cut'') = 2 / 3" by code_simp
  have n: "length (js ''cat'') = 3 \<and> length (js ''cut'') = 3" by (simp add: js_def)
  show ?thesis
    using combinedTitleSimilarity_blend[of "js ''cat''" "js ''cut''"] j l n by simp
qed

section \<open>The pairwise score\<close>

lemma countedWeight_nonneg: "0 \<le> countedWeight ws k"
  by (simp add: countedWeight_def weightPositive_def weightValue_def split: option.splits)

lemma accumulate_counted:
  "accumulate ws k sim acc = (fst acc + sim * countedWeight ws k, snd acc + countedWeight ws k)"
  by (simp add: accumulate_def countedWeight_def)

lemma accumulate_itemType:
  "(if weightPositive ws k \<and> st then accumulate ws k sim acc else acc)
     = (if st then accumulate ws k sim acc else acc)"
  by (simp add: accumulate_def)

lemma accumulate_if_positive:
  "(if weightPositive ws k then accumulate ws k sim acc else acc) = accumulate ws k sim acc"
  by (simp add: accumulate_def)

lemma accumulatedSimilarity_counted:
  "accumulatedSimilarity ws sims = (\<Sum>(k, sim) \<leftarrow> sims. sim * countedWeight ws k)"
  unfolding accumulatedSimilarity_def
  by (induction sims) (auto simp: countedWeight_def)

lemma accumulatedWeight_counted:
  "accumulatedWeight ws sims = (\<Sum>(k, sim) \<leftarrow> sims. countedWeight ws k)"
  unfolding accumulatedWeight_def
  by (induction sims) (auto simp: countedWeight_def)

lemma exact_test: "(a \<noteq> [] \<and> b \<noteq> [] \<and> a = b) = (a \<noteq> [] \<and> a = b)"
  by auto

lemma fold_accumulate:
  "fold (\<lambda>(k, sim). accumulate ws k sim) sims acc =
     (fst acc + (\<Sum>(k, sim) \<leftarrow> sims. sim * countedWeight ws k),
      snd acc + (\<Sum>(k, sim) \<leftarrow> sims. countedWeight ws k))"
  by (induction sims arbitrary: acc) (auto simp: accumulate_counted add.assoc)

lemma calculateSimilarity_fold:
  assumes "\<not> (st \<and> itemType r1 \<noteq> itemType r2)"
  shows "calculateSimilarity r1 r2 ws fz st =
           (let acc = fold (\<lambda>(k, sim). accumulate ws k sim) (fieldSimilarities r1 r2 fz st) (0, 0)
            in if 0 < snd acc then fst acc / snd acc else 0)"
  using assms
  by (cases st)
     (simp_all add: calculateSimilarity_def Let_def fieldSimilarities_def lowPriorityFields_def
        fieldOf_def accumulate_itemType accumulate_if_positive exact_test split del: if_split cong: if_cong)

lemma calculateSimilarity_ratio:
  assumes "\<not> (st \<and> itemType r1 \<noteq> itemType r2)"
  shows "calculateSimilarity r1 r2 ws fz st =
           (if 0 < accumulatedWeight ws (fieldSimilarities r1 r2 fz st)
            then accumulatedSimilarity ws (fieldSimilarities r1 r2 fz st)
                   / accumulatedWeight ws (fieldSimilarities r1 r2 fz st)
            else 0)"
  unfolding calculateSimilarity_fold[OF assms] fold_accumulate Let_def
    accumulatedSimilarity_counted accumulatedWeight_counted
  by simp

lemma weighted_sum_bounds:
  assumes "\<forall>(k, sim) \<in> set sims. 0 \<le> sim \<and> sim \<le> 1"
  shows "0 \<le> (\<Sum>(k, sim) \<leftarrow> sims. sim * countedWeight ws k)
       \<and> (\<Sum>(k, sim) \<leftarrow> sims. sim * countedWeight ws k) \<le> (\<Sum>(k, sim) \<leftarrow> sims. countedWeight ws k)"
  using assms
proof (induction sims)
  case Nil
  show ?case by simp
next
  case (Cons p sims)
  obtain k sim where p: "p = (k, sim)" by (cases p)
  have s: "0 \<le> sim" "sim \<le> 1" using Cons.prems p by simp_all
  have "0 \<le> sim * countedWeight ws k" using s countedWeight_nonneg[of ws k] by simp
  moreover have "sim * countedWeight ws k \<le> 1 * countedWeight ws k"
    using s countedWeight_nonneg[of ws k] by (intro mult_right_mono) simp_all
  ultimately show ?case using Cons p by simp
qed

lemma fieldSimilarities_bounds:
  "\<forall>(k, sim) \<in> set (fieldSimilarities r1 r2 fz st). 0 \<le> sim \<and> sim \<le> 1"
  using jaccardSimilarity_bounds combinedTitleSimilarity_bounds
  by (simp add: fieldSimilarities_def)

lemma calculateSimilarity_bounds:
  "0 \<le> calculateSimilarity r1 r2 ws fz st \<and> calculateSimilarity r1 r2 ws fz st \<le> 1"
proof (cases "st \<and> itemType r1 \<noteq> itemType r2")
  case True
  then show ?thesis by (simp add: calculateSimilarity_def)
next
  case False
  let ?S = "accumulatedSimilarity ws (fieldSimilarities r1 r2 fz st)"
  let ?W = "accumulatedWeight ws (fieldSimilarities r1 r2 fz st)"
  have b: "0 \<le> ?S" "?S \<le> ?W"
    using weighted_sum_bounds[OF fieldSimilarities_bounds[of r1 r2 fz st], of ws]
    by (simp_all add: accumulatedSimilarity_counted accumulatedWeight_counted)
  have "0 \<le> ?S / ?W \<and> ?S / ?W \<le> 1" using b ratio_le_one[of ?S ?W] by simp
  then show ?thesis using False by (simp add: calculateSimilarity_ratio)
qed

lemma accumulatedWeight_no_positive:
  assumes "\<forall>k. \<not> weightPositive ws k"
  shows "accumulatedWeight ws sims = 0"
  using assms by (induction sims) (auto simp: accumulatedWeight_def)

lemma calculateSimilarity_no_positive:
  assumes "\<forall>k. \<not> weightPositive ws k"
  shows "calculateSimilarity r1 r2 ws fz st = 0"
proof (cases "st \<and> itemType r1 \<noteq> itemType r2")
  case True
  then show ?thesis by (simp add: calculateSimilarity_def)
next
  case False
  then show ?thesis
    using accumulatedWeight_no_positive[OF assms] by (simp add: calculateSimilarity_ratio)
qed

lemma exact_or_commute:
  fixes a b :: jsstring and x y :: real
  assumes "x = y"
  shows "(if a \<noteq> [] \<and> a = b then 1 else x) = (if b \<noteq> [] \<and> b = a then 1 else y)"
  using assms by auto

lemma fieldSimilarities_commute:
  "fieldSimilarities r1 r2 fz st = fieldSimilarities r2 r1 fz st"
  unfolding fieldSimilarities_def
  using exact_or_commute[OF jaccardSimilarity_commute[of "URL r1" "URL r2"], of "URL r1" "URL r2"]
    exact_or_commute[OF refl[of "0::real"], of "DOI r1" "DOI r2"]
    exact_or_commute[OF jaccardSimilarity_commute[of "date r1" "date r2"], of "year r1" "year r2"]
    combinedTitleSimilarity_commute[of "title r1" "title r2" fz]
    jaccardSimilarity_commute[of "creators r1" "creators r2"]
    jaccardSimilarity_commute[of "publisher r1" "publisher r2"]
    jaccardSimilarity_commute[of "journal r1" "journal r2"]
    jaccardSimilarity_commute[of "shortTitle r1" "shortTitle r2"]
    jaccardSimilarity_commute[of "place r1" "place r2"]
    jaccardSimilarity_commute[of "ISBN r1" "ISBN r2"]
  by (simp only:)

lemma calculateSimilarity_commute:
  "calculateSimilarity r1 r2 ws fz st = calculateSimilarity r2 r1 ws fz st"
proof (cases "st \<and> itemType r1 \<noteq> itemType r2")
  case True
  then show ?thesis by (auto simp: calculateSimilarity_def)
next
  case False
  then have "\<not> (st \<and> itemType r2 \<noteq> itemType r1)" by auto
  then show ?thesis
    using False fieldSimilarities_commute[of r1 r2 fz st] by (simp add: calculateSimilarity_ratio)
qed

text \<open>
  \<^bold>\<open>Claim C3.\<close> For every pair of normalized records and every weight vector: if
  \<^verbatim>\<open>requireSameType\<close> is set and the item types of the two records differ, the score is 0,
  whatever the weights and the other fields are.
\<close>

theorem calculateSimilarity_type_veto:
  assumes "requireSameType" and "itemType r1 \<noteq> itemType r2"
  shows "calculateSimilarity r1 r2 ws useFuzzyTitle requireSameType = 0"
  using assms by (simp add: calculateSimilarity_def)

theorem calculateSimilarity_type_veto_witness:
  "itemType (emptyItem\<lparr>itemType := js ''book'', URL := js ''x.org''\<rparr>)
     \<noteq> itemType (emptyItem\<lparr>itemType := js ''webpage'', URL := js ''x.org''\<rparr>)
   \<and> calculateSimilarity (emptyItem\<lparr>itemType := js ''book'', URL := js ''x.org''\<rparr>)
         (emptyItem\<lparr>itemType := js ''webpage'', URL := js ''x.org''\<rparr>) defaultWeights True True = 0"
proof -
  have d: "itemType (emptyItem\<lparr>itemType := js ''book'', URL := js ''x.org''\<rparr>)
             \<noteq> itemType (emptyItem\<lparr>itemType := js ''webpage'', URL := js ''x.org''\<rparr>)"
    by (simp add: js_def)
  show ?thesis
    using d calculateSimilarity_type_veto[OF TrueI d, of defaultWeights True] by simp
qed

text \<open>
  \<^bold>\<open>Claim C4.\<close> For every pair of normalized records, every weight vector and every setting
  of the flags, the score lies in \<open>[0, 1]\<close>. Unless the same-type veto applies, it is the
  accumulated per-field similarity divided by the accumulated weight, both taken over the
  fields with positive weight (the item type taking part only when the same type is
  required), and 0 when that accumulated weight is not positive; it is 0 when no field has
  a positive weight.
\<close>

theorem calculateSimilarity_weighted_average:
  "0 \<le> calculateSimilarity r1 r2 ws useFuzzyTitle requireSameType
   \<and> calculateSimilarity r1 r2 ws useFuzzyTitle requireSameType \<le> 1
   \<and> (\<not> (requireSameType \<and> itemType r1 \<noteq> itemType r2) \<longrightarrow>
        calculateSimilarity r1 r2 ws useFuzzyTitle requireSameType =
          (if 0 < accumulatedWeight ws (fieldSimilarities r1 r2 useFuzzyTitle requireSameType)
           then accumulatedSimilarity ws (fieldSimilarities r1 r2 useFuzzyTitle requireSameType)
                  / accumulatedWeight ws (fieldSimilarities r1 r2 useFuzzyTitle requireSameType)
           else 0))
   \<and> ((\<forall>k. \<not> weightPositive ws k) \<longrightarrow>
        calculateSimilarity r1 r2 ws useFuzzyTitle requireSameType = 0)"
  using calculateSimilarity_bounds[of r1 r2 ws useFuzzyTitle requireSameType]
    calculateSimilarity_ratio[of requireSameType r1 r2 ws useFuzzyTitle]
    calculateSimilarity_no_positive[of ws r1 r2 useFuzzyTitle requireSameType]
  by blast

theorem calculateSimilarity_weighted_average_witness:
  "calculateSimilarity (emptyItem\<lparr>title := js ''deep learning'', URL := js ''x.org/a''\<rparr>)
     (emptyItem\<lparr>title := js ''deep learning'', URL := js ''x.org/b''\<rparr>)
     [(''URL'', 1 / 2), (''title'', 1 / 2)] True False = 1 / 2
   \<and> calculateSimilarity (emptyItem\<lparr>title := js ''deep learning'', URL := js ''x.org/a''\<rparr>)
     (emptyItem\<lparr>title := js ''deep learning'', URL := js ''x.org/b''\<rparr>)
     [(''URL'', 0), (''title'', 0)] True False = 0"
proof -
  let ?a = "emptyItem\<lparr>title := js ''deep learning'', URL := js ''x.org/a''\<rparr>"
  let ?b = "emptyItem\<lparr>title := js ''deep learning'', URL := js ''x.org/b''\<rparr>"
  let ?ws = "[(''URL'', 1 / 2), (''title'', 1 / 2)] :: weights"
  let ?zs = "[(''URL'', 0), (''title'', 0)] :: weights"
  have w: "accumulatedWeight ?ws (fieldSimilarities ?a ?b True False) = 1" by code_simp
  have s: "accumulatedSimilarity ?ws (fieldSimilarities ?a ?b True False) = 1 / 2" by code_simp
  have z: "\<forall>k. \<not> weightPositive ?zs k" by (simp add: weightPositive_def)
  have "calculateSimilarity ?a ?b ?ws True False = 1 / 2"
    using calculateSimilarity_weighted_average[of ?a ?b ?ws True False] w s by simp
  moreover have "calculateSimilarity ?a ?b ?zs True False = 0"
    using calculateSimilarity_weighted_average[of ?a ?b ?zs True False] z by blast
  ultimately show ?thesis by simp
qed

text \<open>
  \<^bold>\<open>Claim C10.\<close> The score is symmetric in its two record arguments, for every weight
  vector and every setting of the flags: the token-set similarity, the exact-match tests,
  the edit similarity and the title blend are all symmetric.
\<close>

theorem calculateSimilarity_symmetric:
  "calculateSimilarity r1 r2 ws useFuzzyTitle requireSameType
     = calculateSimilarity r2 r1 ws useFuzzyTitle requireSameType
   \<and> jaccardSimilarity a b = jaccardSimilarity b a
   \<and> levenshteinSimilarity a b = levenshteinSimilarity b a
   \<and> combinedTitleSimilarity a b useFuzzyTitle = combinedTitleSimilarity b a useFuzzyTitle"
  using calculateSimilarity_commute[of r1 r2 ws useFuzzyTitle requireSameType]
    jaccardSimilarity_commute[of a b] levenshteinSimilarity_commute[of a b]
    combinedTitleSimilarity_commute[of a b useFuzzyTitle]
  by simp

theorem calculateSimilarity_symmetric_witness:
  "calculateSimilarity (emptyItem\<lparr>title := js ''cat'', itemType := js ''book''\<rparr>)
     (emptyItem\<lparr>title := js ''cut'', itemType := js ''webpage''\<rparr>) defaultWeights True False
   = calculateSimilarity (emptyItem\<lparr>title := js ''cut'', itemType := js ''webpage''\<rparr>)
     (emptyItem\<lparr>title := js ''cat'', itemType := js ''book''\<rparr>) defaultWeights True False"
  using calculateSimilarity_symmetric[of "emptyItem\<lparr>title := js ''cat'', itemType := js ''book''\<rparr>"
      "emptyItem\<lparr>title := js ''cut'', itemType := js ''webpage''\<rparr>" defaultWeights True False]
  by blast

section \<open>Weight normalization\<close>

subsection \<open>Exact arithmetic\<close>

lemma foldl_add_sum_list: "foldl (+) a xs = a + sum_list xs" for a :: real
  by (induction xs arbitrary: a) simp_all

lemma sum_list_scaled: "(\<Sum>(k, v) \<leftarrow> ws. v / t) = sum_list (map snd ws) / t" for t :: real
  by (induction ws) (auto simp: add_divide_distrib)

lemma map_snd_scaled: "map snd (map (\<lambda>(key, v). (key, v / t)) ws) = map (\<lambda>(k, v). v / t) ws"
  by (induction ws) auto

lemma normalizeWeights_sum_one:
  assumes "sum_list (map snd ws) \<noteq> 0"
  shows "sum_list (map snd (normalizeWeights ws)) = 1"
  using assms
  by (simp add: normalizeWeights_def Let_def foldl_add_sum_list map_snd_scaled sum_list_scaled
        del: map_map)

lemma normalizeWeights_all_zero:
  assumes "\<forall>v \<in> set (map snd ws). v = 0"
  shows "normalizeWeights ws = ws"
proof -
  have "sum_list (map snd ws) = 0" using assms by (induction ws) auto
  then show ?thesis by (simp add: normalizeWeights_def Let_def foldl_add_sum_list)
qed

lemma normalizeWeights_keys: "map fst (normalizeWeights ws) = map fst ws"
  by (auto simp: normalizeWeights_def Let_def)

subsection \<open>Rounding\<close>

lemma halvings_bounds: "1 \<le> x \<Longrightarrow> 2 ^ halvings x \<le> x \<and> x < 2 * 2 ^ halvings x"
proof (induction x rule: halvings.induct)
  case (1 x)
  show ?case
  proof (cases "x < 2")
    case True
    then show ?thesis using "1.prems" by (simp add: halvings.simps[of x])
  next
    case False
    then have "1 \<le> x / 2" by simp
    then have "2 ^ halvings (x / 2) \<le> x / 2 \<and> x / 2 < 2 * 2 ^ halvings (x / 2)"
      using "1.IH"[OF False] by simp
    then show ?thesis using False by (simp add: halvings.simps[of x])
  qed
qed

lemma doublings_bounds:
  "0 < x \<Longrightarrow> x < 1 \<Longrightarrow> 1 \<le> x * 2 ^ doublings x \<and> x * 2 ^ doublings x < 2"
proof (induction x rule: doublings.induct)
  case (1 x)
  have n: "\<not> (x \<le> 0 \<or> 1 \<le> x)" using "1.prems" by simp
  have d: "doublings x = Suc (doublings (2 * x))" using n by (simp add: doublings.simps[of x])
  show ?case
  proof (cases "2 * x < 1")
    case True
    then have "1 \<le> 2 * x * 2 ^ doublings (2 * x) \<and> 2 * x * 2 ^ doublings (2 * x) < 2"
      using "1.IH"[OF n] "1.prems" by simp
    then show ?thesis by (simp add: d mult.assoc mult.left_commute)
  next
    case False
    then have "doublings (2 * x) = 0" by (simp add: doublings.simps[of "2 * x"])
    then show ?thesis using False "1.prems" by (simp add: d)
  qed
qed

lemma binade_bounds:
  assumes "0 < x"
  shows "2 powi binade x \<le> x \<and> x < 2 * 2 powi binade x"
proof (cases "1 \<le> x")
  case True
  then show ?thesis using halvings_bounds[OF True] by (simp add: binade_def)
next
  case False
  then have "1 \<le> x * 2 ^ doublings x \<and> x * 2 ^ doublings x < 2"
    using doublings_bounds[of x] assms by simp
  then show ?thesis using False
    by (simp add: binade_def power_int_minus field_simps)
qed

lemma roundEven_error: "\<bar>of_int (roundEven y) - y\<bar> \<le> 1 / 2"
proof -
  have "of_int \<lfloor>y\<rfloor> \<le> y" "y < of_int \<lfloor>y\<rfloor> + 1" by linarith+
  then show ?thesis unfolding roundEven_def Let_def by (auto simp: abs_le_iff)
qed

lemma roundDouble_error:
  assumes "0 < x"
  shows "\<bar>roundDouble x - x\<bar> \<le> x / 2 ^ 53"
proof -
  define e where "e = binade x"
  define ulp :: real where "ulp = 2 powi (e - 52)"
  have up: "0 < ulp" by (simp add: ulp_def)
  have r: "roundDouble x = of_int (roundEven (x / ulp)) * ulp"
    using assms by (simp add: roundDouble_def Let_def ulp_def e_def)
  have "\<bar>of_int (roundEven (x / ulp)) * ulp - x\<bar> = \<bar>of_int (roundEven (x / ulp)) - x / ulp\<bar> * ulp"
  proof -
    have "of_int (roundEven (x / ulp)) * ulp - x = (of_int (roundEven (x / ulp)) - x / ulp) * ulp"
      using up by (simp add: field_simps)
    then show ?thesis using up by (simp add: abs_mult)
  qed
  also have "\<dots> \<le> (1 / 2) * ulp"
    using roundEven_error[of "x / ulp"] up by (intro mult_right_mono) simp_all
  also have "\<dots> = 2 powi e / 2 ^ 53"
  proof -
    have "(2::real) powi (e - 52) = 2 powi e / 2 ^ 52"
      by (simp add: power_int_diff)
    then show ?thesis by (simp add: ulp_def)
  qed
  also have "\<dots> \<le> x / 2 ^ 53"
    using binade_bounds[OF assms] by (simp add: e_def divide_right_mono)
  finally show ?thesis using r by simp
qed

lemma roundDouble_bounds:
  assumes "0 \<le> x"
  shows "x * (1 - unitRoundoff) \<le> roundDouble x \<and> roundDouble x \<le> x * (1 + unitRoundoff)"
proof (cases "x = 0")
  case True
  then show ?thesis by (simp add: roundDouble_def)
next
  case False
  then have "0 < x" using assms by simp
  then have "\<bar>roundDouble x - x\<bar> \<le> x * unitRoundoff"
    using roundDouble_error[of x] by (simp add: unitRoundoff_def)
  then show ?thesis by (simp add: abs_le_iff right_diff_distrib distrib_left)
qed

lemma unitRoundoff_range: "0 < unitRoundoff" "unitRoundoff < 1"
  by (simp_all add: unitRoundoff_def)

lemma roundDouble_nonneg: "0 \<le> x \<Longrightarrow> 0 \<le> roundDouble x"
proof -
  assume a: "0 \<le> x"
  have "0 \<le> x * (1 - unitRoundoff)" using a unitRoundoff_range by simp
  then show ?thesis using roundDouble_bounds[OF a] by linarith
qed

lemma foldl_addDouble_bounds:
  assumes "0 \<le> a" "\<forall>v \<in> set vs. 0 \<le> v"
  shows "0 \<le> foldl addDouble a vs
       \<and> (a + sum_list vs) * (1 - unitRoundoff) ^ length vs \<le> foldl addDouble a vs
       \<and> foldl addDouble a vs \<le> (a + sum_list vs) * (1 + unitRoundoff) ^ length vs"
  using assms
proof (induction vs arbitrary: a)
  case Nil
  then show ?case by simp
next
  case (Cons v vs)
  let ?u = unitRoundoff
  let ?r = "roundDouble (a + v)"
  let ?S = "sum_list vs"
  let ?n = "length vs"
  have v: "0 \<le> v" and vs: "\<forall>v \<in> set vs. 0 \<le> v" using Cons.prems by simp_all
  have S: "0 \<le> ?S" using vs by (simp add: sum_list_nonneg)
  have av: "0 \<le> a + v" using Cons.prems v by simp
  have r0: "0 \<le> ?r" using av by (rule roundDouble_nonneg)
  have rb: "(a + v) * (1 - ?u) \<le> ?r" "?r \<le> (a + v) * (1 + ?u)"
    using roundDouble_bounds[OF av] by simp_all
  have IH: "0 \<le> foldl addDouble ?r vs"
    "(?r + ?S) * (1 - ?u) ^ ?n \<le> foldl addDouble ?r vs"
    "foldl addDouble ?r vs \<le> (?r + ?S) * (1 + ?u) ^ ?n"
    using Cons.IH[OF r0 vs] by simp_all
  have p1: "0 \<le> (1 - ?u) ^ ?n" using unitRoundoff_range by simp
  have p2: "0 \<le> (1 + ?u) ^ ?n" using unitRoundoff_range by simp
  have "?S * (1 - ?u) \<le> ?S" using S unitRoundoff_range by (simp add: mult_left_le)
  then have lo: "(a + v + ?S) * (1 - ?u) \<le> ?r + ?S" using rb(1) by (simp add: distrib_right)
  have "?S \<le> ?S * (1 + ?u)" using S unitRoundoff_range by (simp add: distrib_left)
  then have hi: "?r + ?S \<le> (a + v + ?S) * (1 + ?u)" using rb(2) by (simp add: distrib_right)
  have "(a + v + ?S) * (1 - ?u) * (1 - ?u) ^ ?n \<le> (?r + ?S) * (1 - ?u) ^ ?n"
    using lo p1 by (rule mult_right_mono)
  then have a1: "(a + sum_list (v # vs)) * (1 - ?u) ^ length (v # vs) \<le> foldl addDouble ?r vs"
    using IH(2) by (simp add: mult.assoc add.assoc)
  have "(?r + ?S) * (1 + ?u) ^ ?n \<le> (a + v + ?S) * (1 + ?u) * (1 + ?u) ^ ?n"
    using hi p2 by (rule mult_right_mono)
  then have a2: "foldl addDouble ?r vs \<le> (a + sum_list (v # vs)) * (1 + ?u) ^ length (v # vs)"
    using IH(3) by (simp add: mult.assoc add.assoc)
  have ad: "addDouble a v = ?r" by (simp add: addDouble_def)
  show ?case using IH(1) a1 a2 by (simp add: ad)
qed

lemma sum_divDouble_bounds:
  assumes "0 < t" "\<forall>v \<in> set vs. 0 \<le> v"
  shows "sum_list vs / t * (1 - unitRoundoff) \<le> (\<Sum>v \<leftarrow> vs. divDouble v t)
       \<and> (\<Sum>v \<leftarrow> vs. divDouble v t) \<le> sum_list vs / t * (1 + unitRoundoff)"
  using assms(2)
proof (induction vs)
  case Nil
  show ?case by simp
next
  case (Cons v vs)
  have "0 \<le> v / t" using Cons.prems assms(1) by simp
  then have "v / t * (1 - unitRoundoff) \<le> divDouble v t \<and> divDouble v t \<le> v / t * (1 + unitRoundoff)"
    unfolding divDouble_def by (rule roundDouble_bounds)
  moreover have "sum_list vs / t * (1 - unitRoundoff) \<le> (\<Sum>v \<leftarrow> vs. divDouble v t)
       \<and> (\<Sum>v \<leftarrow> vs. divDouble v t) \<le> sum_list vs / t * (1 + unitRoundoff)"
    using Cons by simp
  ultimately show ?case by (simp add: add_divide_distrib distrib_right)
qed

lemma map_snd_divDouble:
  "map snd (map (\<lambda>(key, v). (key, divDouble v t)) ws) = map (\<lambda>v. divDouble v t) (map snd ws)"
  by (induction ws) auto

lemma normalizeWeightsDouble_product_bounds:
  assumes "\<forall>v \<in> set (map snd ws). 0 \<le> v" and "0 < sum_list (map snd ws)"
  shows "(1 - unitRoundoff) / (1 + unitRoundoff) ^ length ws
           \<le> sum_list (map snd (normalizeWeightsDouble ws))
       \<and> sum_list (map snd (normalizeWeightsDouble ws))
           \<le> (1 + unitRoundoff) / (1 - unitRoundoff) ^ length ws"
proof -
  let ?u = unitRoundoff
  let ?vs = "map snd ws"
  let ?S = "sum_list ?vs"
  let ?n = "length ws"
  define t where "t = foldl addDouble 0 ?vs"
  have tb: "?S * (1 - ?u) ^ ?n \<le> t" "t \<le> ?S * (1 + ?u) ^ ?n"
    using foldl_addDouble_bounds[of 0 ?vs] assms(1) by (simp_all add: t_def)
  have lo_pos: "0 < (1 - ?u) ^ ?n" and hi_pos: "0 < (1 + ?u) ^ ?n"
    using unitRoundoff_range by simp_all
  have tpos: "0 < t"
  proof -
    have "0 < ?S * (1 - ?u) ^ ?n" using assms(2) lo_pos by simp
    then show ?thesis using tb(1) by linarith
  qed
  have q: "?S / t * (1 - ?u) \<le> (\<Sum>v \<leftarrow> ?vs. divDouble v t)"
    "(\<Sum>v \<leftarrow> ?vs. divDouble v t) \<le> ?S / t * (1 + ?u)"
    using sum_divDouble_bounds[OF tpos assms(1)] by simp_all
  have r1: "1 / (1 + ?u) ^ ?n \<le> ?S / t"
  proof -
    have "t / (1 + ?u) ^ ?n \<le> ?S" using tb(2) hi_pos by (simp add: pos_divide_le_eq)
    then have "t \<le> ?S * (1 + ?u) ^ ?n" using tb(2) by simp
    then show ?thesis using tpos hi_pos by (simp add: field_simps)
  qed
  have r2: "?S / t \<le> 1 / (1 - ?u) ^ ?n"
    using tb(1) tpos lo_pos by (simp add: field_simps)
  have u1: "0 \<le> 1 - ?u" "0 \<le> 1 + ?u" using unitRoundoff_range by simp_all
  have "(1 - ?u) / (1 + ?u) ^ ?n = 1 / (1 + ?u) ^ ?n * (1 - ?u)" by simp
  also have "\<dots> \<le> ?S / t * (1 - ?u)" using r1 u1(1) by (rule mult_right_mono)
  finally have lo: "(1 - ?u) / (1 + ?u) ^ ?n \<le> (\<Sum>v \<leftarrow> ?vs. divDouble v t)" using q(1) by linarith
  have "?S / t * (1 + ?u) \<le> 1 / (1 - ?u) ^ ?n * (1 + ?u)" using r2 u1(2) by (rule mult_right_mono)
  also have "\<dots> = (1 + ?u) / (1 - ?u) ^ ?n" by simp
  finally have hi: "(\<Sum>v \<leftarrow> ?vs. divDouble v t) \<le> (1 + ?u) / (1 - ?u) ^ ?n" using q(2) by linarith
  have "t \<noteq> 0" using tpos by simp
  then have "map snd (normalizeWeightsDouble ws) = map (\<lambda>v. divDouble v t) ?vs"
    by (simp add: normalizeWeightsDouble_def Let_def t_def[symmetric] map_snd_divDouble del: map_map)
  then show ?thesis using lo hi by simp
qed

lemma rounding_tolerance:
  fixes n :: nat
  assumes "real n + 1 \<le> 2 ^ 52"
  shows "1 - (real n + 1) * unitRoundoff \<le> (1 - unitRoundoff) / (1 + unitRoundoff) ^ n
       \<and> (1 + unitRoundoff) / (1 - unitRoundoff) ^ n \<le> 1 + 2 * (real n + 1) * unitRoundoff"
proof
  let ?u = unitRoundoff
  have u: "0 < ?u" "?u < 1" by (rule unitRoundoff_range)+
  define a where "a = real n * ?u"
  define b where "b = (real n + 1) * ?u"
  have b_half: "b \<le> 1 / 2"
  proof -
    have "(real n + 1) * ?u \<le> 2 ^ 52 * ?u" using assms u by (intro mult_right_mono) simp_all
    then show ?thesis by (simp add: b_def unitRoundoff_def)
  qed
  have a0: "0 \<le> a" using u by (simp add: a_def)
  have ab: "b = a + ?u" by (simp add: a_def b_def distrib_right)
  have a_half: "a \<le> 1 / 2" using ab b_half u by linarith
  have bern: "1 - a \<le> (1 - ?u) ^ n"
    using Bernoulli_inequality[of "- ?u" n] u by (simp add: a_def)
  have bern1: "1 - b \<le> (1 - ?u) ^ Suc n"
    using Bernoulli_inequality[of "- ?u" "Suc n"] u by (simp add: b_def add.commute del: power_Suc)
  have pos: "0 < (1 + ?u) ^ n" using u by simp
  have "(1 + ?u) ^ n * (1 - ?u) ^ n = ((1 + ?u) * (1 - ?u)) ^ n" by (simp add: power_mult_distrib)
  also have "\<dots> \<le> 1"
  proof (rule power_le_one)
    show "0 \<le> (1 + ?u) * (1 - ?u)" using u by simp
    have "(1 + ?u) * (1 - ?u) = 1 - ?u * ?u" by (simp add: algebra_simps)
    then show "(1 + ?u) * (1 - ?u) \<le> 1" by simp
  qed
  finally have prod: "(1 + ?u) ^ n * (1 - ?u) ^ n \<le> 1" .
  have "1 - b \<le> (1 - ?u) * (1 - ?u) ^ n" using bern1 by simp
  also have "\<dots> \<le> (1 - ?u) / (1 + ?u) ^ n"
  proof -
    have "(1 - ?u) ^ n \<le> 1 / (1 + ?u) ^ n"
      using prod pos by (simp add: pos_le_divide_eq mult.commute)
    then have "(1 - ?u) * (1 - ?u) ^ n \<le> (1 - ?u) * (1 / (1 + ?u) ^ n)"
      using u by (intro mult_left_mono) simp_all
    then show ?thesis by simp
  qed
  finally show "1 - (real n + 1) * ?u \<le> (1 - ?u) / (1 + ?u) ^ n" by (simp add: b_def)
  have pa: "0 < 1 - a" using a_half by simp
  have "(1 + ?u) / (1 - ?u) ^ n \<le> (1 + ?u) / (1 - a)"
    using bern pa u by (intro divide_left_mono) simp_all
  also have "\<dots> \<le> 1 + 2 * b"
  proof -
    have "0 \<le> b * (1 - 2 * a)" using a_half ab a0 u by simp
    then have "1 + ?u \<le> (1 + 2 * b) * (1 - a)" using ab by (simp add: algebra_simps)
    then show ?thesis using pa by (simp add: pos_divide_le_eq)
  qed
  finally show "(1 + ?u) / (1 - ?u) ^ n \<le> 1 + 2 * (real n + 1) * ?u"
    by (simp add: b_def algebra_simps)
qed

lemma normalizeWeightsDouble_tolerance:
  assumes "\<forall>v \<in> set (map snd ws). 0 \<le> v" and "0 < sum_list (map snd ws)"
    and "length ws < 2 ^ 52"
  shows "\<bar>sum_list (map snd (normalizeWeightsDouble ws)) - 1\<bar> \<le> (real (length ws) + 1) / 2 ^ 52"
proof -
  have n: "real (length ws) + 1 \<le> 2 ^ 52"
  proof -
    have "Suc (length ws) \<le> 2 ^ 52" using assms(3) by simp
    then have "real (Suc (length ws)) \<le> real ((2::nat) ^ 52)" by (simp only: of_nat_le_iff)
    then show ?thesis by simp
  qed
  let ?s = "sum_list (map snd (normalizeWeightsDouble ws))"
  let ?t = "(real (length ws) + 1) / 2 ^ 52"
  have t: "2 * (real (length ws) + 1) * unitRoundoff = ?t"
    by (simp add: unitRoundoff_def)
  have h: "(real (length ws) + 1) * unitRoundoff \<le> ?t"
    by (simp add: unitRoundoff_def)
  have "1 - (real (length ws) + 1) * unitRoundoff \<le> ?s"
    using normalizeWeightsDouble_product_bounds[OF assms(1,2)] rounding_tolerance[OF n] by linarith
  then have lo: "1 - ?t \<le> ?s" using h by linarith
  have "?s \<le> 1 + 2 * (real (length ws) + 1) * unitRoundoff"
    using normalizeWeightsDouble_product_bounds[OF assms(1,2)] rounding_tolerance[OF n] by linarith
  then have hi: "?s \<le> 1 + ?t" by (simp only: t)
  show ?thesis using lo hi by (simp only: abs_le_iff) linarith
qed

lemma roundDouble_zero: "roundDouble 0 = 0"
  by (simp add: roundDouble_def)

lemma normalizeWeightsDouble_all_zero:
  assumes "\<forall>v \<in> set (map snd ws). v = 0"
  shows "normalizeWeightsDouble ws = ws"
proof -
  have "foldl addDouble 0 vs = 0" if "\<forall>v \<in> set vs. v = 0" for vs
    using that by (induction vs) (simp_all add: addDouble_def roundDouble_zero)
  then show ?thesis using assms by (simp add: normalizeWeightsDouble_def Let_def)
qed

lemma doubles_examples:
  "roundDouble (1 / 10) = 3602879701896397 / 2 ^ 55
   \<and> addDouble (roundDouble (1 / 10)) (roundDouble (2 / 10)) = 1351079888211149 / 2 ^ 52
   \<and> divDouble 1 3 = 6004799503160661 / 2 ^ 54"
  by code_simp

subsection \<open>The sum of the normalized weights\<close>

text \<open>
  \<^bold>\<open>Claim C8\<close> says that the values sum to 1 after \<^verbatim>\<open>normalizeWeights\<close> whenever they
  summed to \<open>S > 0\<close> before. The function divides doubles by a sum of doubles, and every
  operation rounds. For the weights 0.1, 0.2 and 0.3 the total is 0.6000000000000001, the
  quotients are 0.16666666666666666, 0.3333333333333333 and 0.4999999999999999, and their
  sum is not 1, neither exactly nor when it is added up in doubles (0.9999999999999999).
\<close>

theorem normalizeWeights_sum_counterexample:
  "0 < sum_list (map snd tenths)
   \<and> foldl addDouble 0 (map snd tenths) = 5404319552844596 / 2 ^ 53
   \<and> sum_list (map snd (normalizeWeightsDouble tenths)) = 36028797018963963 / 2 ^ 55
   \<and> sum_list (map snd (normalizeWeightsDouble tenths)) \<noteq> 1
   \<and> foldl addDouble 0 (map snd (normalizeWeightsDouble tenths)) = 9007199254740991 / 2 ^ 53"
  by code_simp

text \<open>
  \<^bold>\<open>Claim C8, as the code has it.\<close> For non-negative weights whose sum \<open>S\<close> is positive,
  the values after \<^verbatim>\<open>normalizeWeights\<close> sum to 1 up to rounding: for \<open>n\<close> weights
  (\<open>n < 2^52\<close>) the sum differs from 1 by at most \<open>(n + 1) / 2^52\<close>, as long as no
  intermediate result leaves the range of the doubles; in exact arithmetic the sum is 1. If
  all values are 0, \<^verbatim>\<open>normalizeWeights\<close> leaves the vector unchanged.
\<close>

theorem normalizeWeights_sum_within_rounding:
  "((\<forall>v \<in> set (map snd ws). 0 \<le> v) \<and> 0 < sum_list (map snd ws) \<and> length ws < 2 ^ 52 \<longrightarrow>
      \<bar>sum_list (map snd (normalizeWeightsDouble ws)) - 1\<bar> \<le> (real (length ws) + 1) / 2 ^ 52)
   \<and> (0 < sum_list (map snd ws) \<longrightarrow> sum_list (map snd (normalizeWeights ws)) = 1)
   \<and> ((\<forall>v \<in> set (map snd ws). v = 0) \<longrightarrow>
        normalizeWeightsDouble ws = ws \<and> normalizeWeights ws = ws)"
  using normalizeWeightsDouble_tolerance[of ws] normalizeWeights_sum_one[of ws]
    normalizeWeightsDouble_all_zero[of ws] normalizeWeights_all_zero[of ws]
  by simp

theorem normalizeWeights_sum_within_rounding_witness:
  "\<bar>sum_list (map snd (normalizeWeightsDouble tenths)) - 1\<bar> \<le> 4 / 2 ^ 52
   \<and> sum_list (map snd (normalizeWeights defaultWeights)) = 1
   \<and> normalizeWeightsDouble [(''a'', 0), (''b'', 0)] = [(''a'', 0), (''b'', 0)]
   \<and> normalizeWeights [(''a'', 0), (''b'', 0)] = [(''a'', 0), (''b'', 0)]"
proof -
  have h: "(\<forall>v \<in> set (map snd tenths). 0 \<le> v) \<and> 0 < sum_list (map snd tenths)" by code_simp
  have l: "length tenths = 3" by (simp add: tenths_def)
  have d: "0 < sum_list (map snd defaultWeights)" by (simp add: defaultWeights_def)
  have "\<bar>sum_list (map snd (normalizeWeightsDouble tenths)) - 1\<bar> \<le> 4 / 2 ^ 52"
    using normalizeWeights_sum_within_rounding[of tenths] h l by simp
  moreover have "sum_list (map snd (normalizeWeights defaultWeights)) = 1"
    using normalizeWeights_sum_within_rounding[of defaultWeights] d by blast
  moreover have "normalizeWeightsDouble [(''a'', 0), (''b'', 0)] = [(''a'', 0), (''b'', 0)]
      \<and> normalizeWeights [(''a'', 0), (''b'', 0)] = [(''a'', 0), (''b'', 0)]"
    using normalizeWeights_sum_within_rounding[of "[(''a'', 0), (''b'', 0)]"] by simp
  ultimately show ?thesis by simp
qed

section \<open>Field normalization\<close>

text \<open>The string normalizers are total: normalizing a record fails exactly when one of the
  host accessors it calls throws, and then with that accessor's exception.\<close>

lemma normalizeItemFields_error_source:
  assumes "normalizeItemFields rt item = Inl e"
  shows "(\<exists>f. getField item f = Inl e) \<or> getCreators item = Inl e"
  using assms unfolding normalizeItemFields_def bindE_def
  by (auto split: sum.splits if_splits)

lemma normalizeItemFields_total:
  assumes "\<forall>f. \<exists>v. getField item f = Inr v" and "\<exists>cs. getCreators item = Inr cs"
  shows "\<exists>n. normalizeItemFields rt item = Inr n"
proof -
  obtain cs where cs: "getCreators item = Inr cs" using assms(2) by blast
  have g: "\<exists>v. getField item f = Inr v" for f using assms(1) by blast
  obtain v1 where v1: "getField item ''title'' = Inr v1" using g by blast
  obtain v2 where v2: "getField item ''shortTitle'' = Inr v2" using g by blast
  obtain v3 where v3: "getField item ''date'' = Inr v3" using g by blast
  obtain v4 where v4: "getField item ''publisher'' = Inr v4" using g by blast
  obtain v5 where v5: "getField item ''place'' = Inr v5" using g by blast
  obtain v6 where v6: "getField item ''publicationTitle'' = Inr v6" using g by blast
  obtain v7 where v7: "getField item ''journalAbbreviation'' = Inr v7" using g by blast
  obtain v8 where v8: "getField item ''DOI'' = Inr v8" using g by blast
  obtain v9 where v9: "getField item ''ISBN'' = Inr v9" using g by blast
  obtain v10 where v10: "getField item ''url'' = Inr v10" using g by blast
  show ?thesis
    unfolding normalizeItemFields_def bindE_def
    by (simp add: cs v1 v2 v3 v4 v5 v6 v7 v8 v9 v10)
qed

text \<open>The normalizers on sample values.\<close>

lemma normalizeField_example:
  "normalizeField asciiRuntime (js ''Deep  Learning: An (Introduction).'')
     = js ''deep learning an introduction''"
  by code_simp

lemma normalizeDOI_example:
  "normalizeDOI asciiRuntime (js ''https://doi.org/10.1000/XYZ.12 more'') = js ''10.1000/xyz.12''
   \<and> normalizeDOI asciiRuntime (js ''10.123/abc'') = []"
  by code_simp

lemma normalizeISBN_example:
  "normalizeISBN asciiRuntime (js ''ISBN 978-0-262-03561-x'') = js ''978026203561X''"
  by code_simp

lemma normalizeURL_example:
  "normalizeURL asciiRuntime (js ''https://Example.org/Path//'') = js ''example.org/path''
   \<and> normalizeURL asciiRuntime (js ''HTTP://Example.org'') = js ''http://example.org''"
  by code_simp

lemma extractYear_example:
  "extractYear (js ''May 2016'') = js ''2016'' \<and> extractYear (js ''12016-05'') = []
   \<and> extractYear (js ''c1999a 2001'') = js ''2001''"
  by code_simp

lemma normalizeCreators_example:
  "normalizeCreators asciiRuntime
     [\<lparr>firstName = Some (js ''Yoshua''), lastName = Some (js ''Bengio''), name = None\<rparr>,
      \<lparr>firstName = None, lastName = None, name = Some (js ''ACM'')\<rparr>]
   = js ''acm yoshua bengio''"
  by code_simp

lemma reason_example:
  "map reason (projr (detectDuplicates asciiRuntime [bookA, pageB] (1 / 10) defaultWeights False True False))
     = [js ''Similarity: 68.0% (types differ: book vs webpage)'']
   \<and> map reason (projr (detectDuplicates asciiRuntime [bookA, pageB] (1 / 10) defaultWeights True True False))
     = [js ''Exact URL match: x.org/a (types differ: book vs webpage)'']"
  by code_simp

section \<open>Duplicate detection\<close>

subsection \<open>The sort\<close>

lemma set_insertBy: "set (insertBy cmp x xs) = insert x (set xs)"
  by (induction xs) auto

lemma set_sortBy: "set (sortBy cmp xs) = set xs"
  by (induction xs) (simp_all add: set_insertBy)

lemma length_insertBy: "length (insertBy cmp x xs) = Suc (length xs)"
  by (induction xs) auto

lemma length_sortBy: "length (sortBy cmp xs) = length xs"
  by (induction xs) (simp_all add: length_insertBy)

lemma sorted_insertBy:
  assumes "sorted_wrt (\<lambda>a b. similarity b \<le> similarity a) xs"
  shows "sorted_wrt (\<lambda>a b. similarity b \<le> similarity a) (insertBy bySimilarityDesc x xs)"
  using assms
proof (induction xs)
  case Nil
  show ?case by simp
next
  case (Cons y ys)
  show ?case
  proof (cases "bySimilarityDesc x y \<le> 0")
    case True
    then have "similarity y \<le> similarity x" by (simp add: bySimilarityDesc_def)
    then show ?thesis using True Cons.prems by auto
  next
    case False
    then have "similarity x \<le> similarity y" by (simp add: bySimilarityDesc_def)
    then show ?thesis using False Cons by (auto simp: set_insertBy)
  qed
qed

lemma sorted_sortBy:
  "sorted_wrt (\<lambda>a b. similarity b \<le> similarity a) (sortBy bySimilarityDesc xs)"
  by (induction xs) (simp_all add: sorted_insertBy)

lemma filter_insertBy:
  "filter (\<lambda>c. similarity c = v) (insertBy bySimilarityDesc x xs)
     = (if similarity x = v then x # filter (\<lambda>c. similarity c = v) xs
        else filter (\<lambda>c. similarity c = v) xs)"
  by (induction xs) (auto simp: bySimilarityDesc_def)

lemma filter_sortBy:
  "filter (\<lambda>c. similarity c = v) (sortBy bySimilarityDesc xs) = filter (\<lambda>c. similarity c = v) xs"
  by (induction xs) (simp_all add: filter_insertBy)

subsection \<open>The comparison loops\<close>

lemma compareWith_map_filter:
  "compareWith x rest th ws ex fz st = List.map_filter (\<lambda>y. comparePair x y th ws ex fz st) rest"
  by (induction rest) (auto simp: List.map_filter_simps split: option.splits)

lemma map_filter_map: "List.map_filter f (map g xs) = List.map_filter (f \<circ> g) xs"
  by (induction xs) (auto simp: List.map_filter_simps split: option.splits)

lemma map_filter_cong_nth:
  "List.map_filter (\<lambda>y. f y) rest = List.map_filter (\<lambda>j. f (rest ! j)) [0..<length rest]"
proof -
  have "List.map_filter f (map ((!) rest) [0..<length rest]) = List.map_filter (f \<circ> (!) rest) [0..<length rest]"
    by (rule map_filter_map)
  then show ?thesis by (simp add: map_nth comp_def)
qed

lemma pairOrder_Suc:
  "pairOrder (Suc n) = map (\<lambda>j. (0, Suc j)) [0..<n] @ map (\<lambda>(i, j). (Suc i, Suc j)) (pairOrder n)"
proof -
  have a: "[0..<Suc n] = 0 # map Suc [0..<n]" by (simp add: upt_conv_Cons map_Suc_upt del: upt_Suc)
  have b: "[Suc i..<Suc n] = map Suc [i..<n]" for i by (simp add: map_Suc_upt)
  show ?thesis
    unfolding pairOrder_def a
    by (simp add: b map_concat comp_def del: upt_Suc)
qed

lemma comparePairs_pairOrder:
  "comparePairs ns th ws ex fz st =
     List.map_filter (\<lambda>(i, j). comparePair (ns ! i) (ns ! j) th ws ex fz st) (pairOrder (length ns))"
proof (induction ns)
  case Nil
  show ?case by (simp add: pairOrder_def List.map_filter_simps)
next
  case (Cons x rest)
  have "compareWith x rest th ws ex fz st
          = List.map_filter (\<lambda>(i, j). comparePair ((x # rest) ! i) ((x # rest) ! j) th ws ex fz st)
              (map (\<lambda>j. (0, Suc j)) [0..<length rest])"
    unfolding compareWith_map_filter map_filter_map
    using map_filter_cong_nth[of "\<lambda>y. comparePair x y th ws ex fz st" rest]
    by (simp add: comp_def)
  moreover have "comparePairs rest th ws ex fz st
          = List.map_filter (\<lambda>(i, j). comparePair ((x # rest) ! i) ((x # rest) ! j) th ws ex fz st)
              (map (\<lambda>(i, j). (Suc i, Suc j)) (pairOrder (length rest)))"
    unfolding Cons.IH map_filter_map by (simp add: comp_def case_prod_unfold)
  ultimately show ?case
    by (simp add: pairOrder_Suc List.map_filter_def)
qed

lemma pairOrder_set: "set (pairOrder n) = {(i, j). i < j \<and> j < n}"
proof -
  have "(i, j) \<in> set (pairOrder n) \<longleftrightarrow> i < j \<and> j < n" for i j
    unfolding pairOrder_def by (simp add: image_iff) linarith
  then show ?thesis by auto
qed

lemma comparePairs_member:
  assumes "i < j" "j < length ns" "comparePair (ns ! i) (ns ! j) th ws ex fz st = Some c"
  shows "c \<in> set (comparePairs ns th ws ex fz st)"
proof -
  have "(i, j) \<in> set (pairOrder (length ns))" using assms by (simp add: pairOrder_set)
  then show ?thesis
    using assms(3) unfolding comparePairs_pairOrder
    by (force simp: List.map_filter_def)
qed

lemma comparePair_exact:
  assumes "(URL i1 \<noteq> [] \<and> URL i1 = URL i2) \<or> (DOI i1 \<noteq> [] \<and> DOI i1 = DOI i2)"
  shows "\<exists>c. comparePair i1 i2 th ws True fz st = Some c
             \<and> item1 c = i1 \<and> item2 c = i2 \<and> similarity c = 1"
  using assms by (auto simp: comparePair_def checkExactIdentifierMatch_def)

subsection \<open>The normalization loop\<close>

lemma normalizeAll_error:
  assumes "k < length items" "normalizeItemFields rt (items ! k) = Inl e"
    and "\<forall>i<k. \<exists>n. normalizeItemFields rt (items ! i) = Inr n"
  shows "normalizeAll rt items = Inl e"
  using assms
proof (induction items arbitrary: k)
  case Nil
  then show ?case by simp
next
  case (Cons item items)
  show ?case
  proof (cases k)
    case 0
    then show ?thesis using Cons.prems by (simp add: bindE_def)
  next
    case (Suc k')
    obtain n where n: "normalizeItemFields rt item = Inr n"
      using Cons.prems(3) Suc by (auto dest: spec[of _ 0])
    have "normalizeAll rt items = Inl e"
    proof (rule Cons.IH[of k'])
      show "k' < length items" using Cons.prems Suc by simp
      show "normalizeItemFields rt (items ! k') = Inl e" using Cons.prems Suc by simp
      show "\<forall>i<k'. \<exists>n. normalizeItemFields rt (items ! i) = Inr n"
        using Cons.prems(3) Suc by (auto dest: spec[of _ "Suc _"])
    qed
    then show ?thesis using n by (simp add: bindE_def)
  qed
qed

lemma normalizeAll_success:
  assumes "\<forall>item \<in> set items. \<exists>n. normalizeItemFields rt item = Inr n"
  shows "\<exists>ns. normalizeAll rt items = Inr ns \<and> map Inr ns = map (normalizeItemFields rt) items"
  using assms
proof (induction items)
  case Nil
  show ?case by simp
next
  case (Cons item items)
  then obtain n ns where "normalizeItemFields rt item = Inr n"
    "normalizeAll rt items = Inr ns" "map Inr ns = map (normalizeItemFields rt) items"
    by auto
  then show ?case by (simp add: bindE_def)
qed

lemma normalizeAll_Inr:
  assumes "normalizeAll rt items = Inr ns"
  shows "map Inr ns = map (normalizeItemFields rt) items"
  using assms
proof (induction items arbitrary: ns)
  case Nil
  then show ?case by simp
next
  case (Cons item items)
  then show ?case by (auto simp: bindE_def split: sum.splits)
qed

subsection \<open>The detector\<close>

lemma detectDuplicates_Inr:
  assumes "normalizeAll rt items = Inr ns"
  shows "detectDuplicates rt items th ws ex fz st
           = Inr (sortBy bySimilarityDesc (comparePairs ns th ws ex fz st))"
  using assms by (simp add: detectDuplicates_def bindE_def)

lemma detectDuplicates_Inl:
  assumes "normalizeAll rt items = Inl e"
  shows "detectDuplicates rt items th ws ex fz st = Inl e"
  using assms by (simp add: detectDuplicates_def bindE_def)

text \<open>
  \<^bold>\<open>Claim C9.\<close> For every list of input records (whose normalization succeeds) and every
  configuration, the candidate pairs returned by \<^verbatim>\<open>detectDuplicates\<close> are sorted by
  similarity in descending order, and the pairs of equal similarity appear in the order in
  which the pairwise comparison met them: the order of the pairs \<open>(i, j)\<close>, \<open>i < j\<close>, of the
  two nested loops.
\<close>

theorem detectDuplicates_sorted_stable:
  assumes "normalizeAll rt items = Inr ns"
  shows "\<exists>result. detectDuplicates rt items threshold ws useExactMatch useFuzzyTitle requireSameType
                    = Inr result
           \<and> sorted_wrt (\<lambda>a b. similarity b \<le> similarity a) result
           \<and> (\<forall>v. filter (\<lambda>c. similarity c = v) result
                  = filter (\<lambda>c. similarity c = v)
                      (List.map_filter
                         (\<lambda>(i, j). comparePair (ns ! i) (ns ! j) threshold ws useExactMatch
                                     useFuzzyTitle requireSameType)
                         (pairOrder (length ns))))
           \<and> length result
               = length (List.map_filter
                           (\<lambda>(i, j). comparePair (ns ! i) (ns ! j) threshold ws useExactMatch
                                       useFuzzyTitle requireSameType)
                           (pairOrder (length ns)))"
  unfolding detectDuplicates_Inr[OF assms] comparePairs_pairOrder[symmetric]
  by (simp add: sorted_sortBy filter_sortBy length_sortBy)

theorem detectDuplicates_sorted_stable_witness:
  "sorted_wrt (\<lambda>a b. similarity b \<le> similarity a)
     (projr (detectDuplicates asciiRuntime [titled 1 ''a b'', titled 2 ''a c'', titled 3 ''a b c'']
               0 [(''title'', 1)] False False False))
   \<and> map (\<lambda>c. (item_id (item1 c), item_id (item2 c), similarity c))
        (projr (detectDuplicates asciiRuntime [titled 1 ''a b'', titled 2 ''a c'', titled 3 ''a b c'']
                  0 [(''title'', 1)] False False False))
      = [(1, 3, 2 / 3), (2, 3, 2 / 3), (1, 2, 1 / 3)]"
proof -
  let ?items = "[titled 1 ''a b'', titled 2 ''a c'', titled 3 ''a b c'']"
  have "\<not> isl (normalizeAll asciiRuntime ?items)" by code_simp
  then obtain ns where ns: "normalizeAll asciiRuntime ?items = Inr ns"
    by (cases "normalizeAll asciiRuntime ?items") auto
  obtain result where
    r: "detectDuplicates asciiRuntime ?items 0 [(''title'', 1)] False False False = Inr result"
    and s: "sorted_wrt (\<lambda>a b. similarity b \<le> similarity a) result"
    using detectDuplicates_sorted_stable[OF ns, of 0 "[(''title'', 1)]" False False False] by blast
  have v: "map (\<lambda>c. (item_id (item1 c), item_id (item2 c), similarity c))
        (projr (detectDuplicates asciiRuntime ?items 0 [(''title'', 1)] False False False))
      = [(1, 3, 2 / 3), (2, 3, 2 / 3), (1, 2, 1 / 3)]"
    by code_simp
  show ?thesis using r s v by simp
qed

text \<open>
  \<^bold>\<open>Claim C2.\<close> When \<^verbatim>\<open>useExactMatch\<close> is enabled, every pair of records with identical
  non-empty normalized URLs, or with identical non-empty normalized DOIs, yields a candidate
  pair of similarity exactly 1 in the result, whatever the threshold is, and also when
  \<^verbatim>\<open>requireSameType\<close> is set and the two item types differ.
\<close>

theorem detectDuplicates_exact_match:
  assumes "normalizeAll rt items = Inr ns"
    and "i < j" and "j < length ns"
    and "(URL (ns ! i) \<noteq> [] \<and> URL (ns ! i) = URL (ns ! j))
         \<or> (DOI (ns ! i) \<noteq> [] \<and> DOI (ns ! i) = DOI (ns ! j))"
  shows "\<exists>result c. detectDuplicates rt items threshold ws True useFuzzyTitle requireSameType
                      = Inr result
           \<and> c \<in> set result \<and> item1 c = ns ! i \<and> item2 c = ns ! j \<and> similarity c = 1"
proof -
  obtain c where c: "comparePair (ns ! i) (ns ! j) threshold ws True useFuzzyTitle requireSameType = Some c"
    "item1 c = ns ! i" "item2 c = ns ! j" "similarity c = 1"
    using comparePair_exact[OF assms(4)] by blast
  have "c \<in> set (comparePairs ns threshold ws True useFuzzyTitle requireSameType)"
    using comparePairs_member[OF assms(2,3) c(1)] .
  then show ?thesis
    using c detectDuplicates_Inr[OF assms(1)] by (auto simp: set_sortBy)
qed

theorem detectDuplicates_exact_match_witness:
  "1 \<in> set (map similarity
              (projr (detectDuplicates asciiRuntime [bookA, pageB] 1 defaultWeights True True True)))
   \<and> map URL (projr (normalizeAll asciiRuntime [bookA, pageB])) = [js ''x.org/a'', js ''x.org/a'']
   \<and> map itemType (projr (normalizeAll asciiRuntime [bookA, pageB])) = [js ''book'', js ''webpage'']"
proof -
  let ?items = "[bookA, pageB]"
  let ?ns = "projr (normalizeAll asciiRuntime ?items)"
  have "\<not> isl (normalizeAll asciiRuntime ?items)" by code_simp
  then have ns: "normalizeAll asciiRuntime ?items = Inr ?ns"
    by (cases "normalizeAll asciiRuntime ?items") auto
  have l1: "(0::nat) < 1" by simp
  have l2: "1 < length ?ns" by code_simp
  have u: "map URL ?ns = [js ''x.org/a'', js ''x.org/a'']" by code_simp
  have t: "map itemType ?ns = [js ''book'', js ''webpage'']" by code_simp
  have u0: "URL (?ns ! 0) = js ''x.org/a''" by code_simp
  have u1: "URL (?ns ! 1) = js ''x.org/a''" by code_simp
  have ne: "js ''x.org/a'' \<noteq> []" by (simp add: js_def)
  have h: "(URL (?ns ! 0) \<noteq> [] \<and> URL (?ns ! 0) = URL (?ns ! 1))
           \<or> (DOI (?ns ! 0) \<noteq> [] \<and> DOI (?ns ! 0) = DOI (?ns ! 1))"
    using u0 u1 ne by simp
  obtain result c where
    "detectDuplicates asciiRuntime ?items 1 defaultWeights True True True = Inr result"
    "c \<in> set result" "similarity c = 1"
    using detectDuplicates_exact_match[OF ns l1 l2 h, of 1 defaultWeights True True] by blast
  then have "1 \<in> set (map similarity
              (projr (detectDuplicates asciiRuntime ?items 1 defaultWeights True True True)))"
    by force
  then show ?thesis using u t by simp
qed

lemma normalizeItemFields_first_accessor:
  assumes "getField item ''title'' = Inl e"
  shows "normalizeItemFields rt item = Inl e"
  using assms by (simp add: normalizeItemFields_def bindE_def)

text \<open>
  \<^bold>\<open>Claim C1\<close> says that a record whose normalization raises an error is skipped and that
  the run goes on. The normalization loop of \<^verbatim>\<open>detectDuplicates\<close> has no handler: the
  exception leaves the function. With a malformed record between two records that share a
  URL the call fails with the record's error, while the same call without the malformed
  record returns the candidate pair of the other two.
\<close>

theorem detectDuplicates_skips_failed_record_counterexample:
  "detectDuplicates asciiRuntime [bookA, malformedItem 2, bookC] (6 / 10) defaultWeights True True False
     = Inl (Thrown (js ''invalid field''))
   \<and> map similarity
         (projr (detectDuplicates asciiRuntime [bookA, bookC] (6 / 10) defaultWeights True True False))
       = [1]"
proof -
  let ?r = "detectDuplicates asciiRuntime [bookA, malformedItem 2, bookC] (6 / 10) defaultWeights True True False"
  have i: "isl ?r" by code_simp
  have p: "projl ?r = Thrown (js ''invalid field'')" by code_simp
  have "?r = Inl (Thrown (js ''invalid field''))" using i p by (cases ?r) auto
  moreover have "map similarity
         (projr (detectDuplicates asciiRuntime [bookA, bookC] (6 / 10) defaultWeights True True False))
       = [1]" by code_simp
  ultimately show ?thesis by simp
qed

text \<open>
  \<^bold>\<open>Claim C1, as the code has it.\<close> If the normalization of a record raises an error,
  \<^verbatim>\<open>detectDuplicates\<close> fails with the error of the first such record in input order: no
  record is skipped, no pair is compared and no candidate list is returned. If no record
  raises, every record is normalized, in input order, and the sorted candidates of the
  pairwise comparison are returned.
\<close>

theorem detectDuplicates_normalization_failure:
  "(k < length items \<and> normalizeItemFields rt (items ! k) = Inl e
      \<and> (\<forall>i<k. \<exists>n. normalizeItemFields rt (items ! i) = Inr n)
     \<longrightarrow> detectDuplicates rt items threshold ws useExactMatch useFuzzyTitle requireSameType = Inl e)
   \<and> ((\<forall>item \<in> set items. \<exists>n. normalizeItemFields rt item = Inr n)
     \<longrightarrow> (\<exists>ns. map Inr ns = map (normalizeItemFields rt) items
               \<and> detectDuplicates rt items threshold ws useExactMatch useFuzzyTitle requireSameType
                   = Inr (sortBy bySimilarityDesc
                            (comparePairs ns threshold ws useExactMatch useFuzzyTitle requireSameType))))"
proof (intro conjI impI)
  assume "k < length items \<and> normalizeItemFields rt (items ! k) = Inl e
            \<and> (\<forall>i<k. \<exists>n. normalizeItemFields rt (items ! i) = Inr n)"
  then have "normalizeAll rt items = Inl e" using normalizeAll_error[of k items rt e] by blast
  then show "detectDuplicates rt items threshold ws useExactMatch useFuzzyTitle requireSameType = Inl e"
    by (rule detectDuplicates_Inl)
next
  assume "\<forall>item \<in> set items. \<exists>n. normalizeItemFields rt item = Inr n"
  then obtain ns where ns: "normalizeAll rt items = Inr ns"
    "map Inr ns = map (normalizeItemFields rt) items"
    using normalizeAll_success[of items rt] by blast
  show "\<exists>ns. map Inr ns = map (normalizeItemFields rt) items
          \<and> detectDuplicates rt items threshold ws useExactMatch useFuzzyTitle requireSameType
              = Inr (sortBy bySimilarityDesc
                       (comparePairs ns threshold ws useExactMatch useFuzzyTitle requireSameType))"
    using ns detectDuplicates_Inr[OF ns(1)] by blast
qed

theorem detectDuplicates_normalization_failure_witness:
  "normalizeItemFields asciiRuntime ([bookA, malformedItem 2, bookC] ! 1) = Inl (Thrown (js ''invalid field''))
   \<and> detectDuplicates asciiRuntime [bookA, malformedItem 2, bookC] (6 / 10) defaultWeights True True False
       = Inl (Thrown (js ''invalid field''))
   \<and> \<not> isl (detectDuplicates asciiRuntime [bookA, bookC] (6 / 10) defaultWeights True True False)"
proof -
  let ?items = "[bookA, malformedItem 2, bookC]"
  let ?e = "Thrown (js ''invalid field'')"
  have k: "(1::nat) < length ?items" by simp
  have bad: "normalizeItemFields asciiRuntime (?items ! 1) = Inl ?e"
    by (simp add: normalizeItemFields_first_accessor malformedItem_def)
  have "\<not> isl (normalizeItemFields asciiRuntime bookA)" by code_simp
  then obtain a where a: "normalizeItemFields asciiRuntime bookA = Inr a"
    by (cases "normalizeItemFields asciiRuntime bookA") auto
  have "\<not> isl (normalizeItemFields asciiRuntime bookC)" by code_simp
  then obtain c where c: "normalizeItemFields asciiRuntime bookC = Inr c"
    by (cases "normalizeItemFields asciiRuntime bookC") auto
  have before: "\<forall>i<1. \<exists>n. normalizeItemFields asciiRuntime (?items ! i) = Inr n"
    using a by simp
  have all: "\<forall>item \<in> set [bookA, bookC]. \<exists>n. normalizeItemFields asciiRuntime item = Inr n"
    using a c by simp
  have "detectDuplicates asciiRuntime ?items (6 / 10) defaultWeights True True False = Inl ?e"
    using detectDuplicates_normalization_failure[of 1 ?items asciiRuntime ?e "6 / 10" defaultWeights True True False]
      k bad before by blast
  moreover have "\<not> isl (detectDuplicates asciiRuntime [bookA, bookC] (6 / 10) defaultWeights True True False)"
    using detectDuplicates_normalization_failure[of 1 "[bookA, bookC]" asciiRuntime ?e "6 / 10" defaultWeights True True False]
      all by auto
  ultimately show ?thesis using bad by simp
qed

end
